theory Spec2Isabelle
  imports Main
begin

section \<open>Bytes, errors, cancellation and the byte source\<close>

text \<open>
  Go strings and byte slices are sequences of 8-bit bytes: \<^typ>\<open>string\<close>.
  A nil slice and an empty slice are both the empty list.
\<close>

abbreviation (input) CR :: char where "CR \<equiv> CHR 0x0D"
abbreviation (input) LF :: char where "LF \<equiv> CHR 0x0A"
abbreviation (input) CRLF :: string where "CRLF \<equiv> [CHR 0x0D, CHR 0x0A]"

text \<open>
  The sentinel errors of packages httpx and netx, and the library errors the code
  passes on (io.EOF, bufio.ErrBufferFull, the two context errors, the two kinds of
  strconv error, io.ErrShortWrite and io's error for an invalid write count).
\<close>

datatype error =
    EOF
  | ErrBodyTooLarge
  | ErrBadChunk
  | ErrLengthMismatch
  | ErrUnexpectedTrailer
  | ErrLineTooLong
  | ErrPeekBeyondCap
  | ErrBufferFull
  | ErrInvalidMax
  | ErrSyntax
  | ErrRange
  | ErrShortWrite
  | ErrInvalidWrite
  | Canceled
  | DeadlineExceeded

text \<open>
  A context.Context as one call sees it: \<open>None\<close> while the Done channel is open,
  \<open>Some e\<close> once it is closed, \<open>e\<close> being what \<open>ctx.Err()\<close> returns.
\<close>

type_synonym Context = "error option"

text \<open>
  An io.Reader over a finite in-memory body, as the tests build it with
  strings.NewReader: \<open>pending\<close> is what has not been read yet. One Read call may
  return fewer bytes than asked for; \<open>grants\<close> lists, call by call, the most the
  source is willing to hand out (at least one byte is always handed out while bytes are
  pending). With \<open>grants = []\<close> every call returns all it can, which is
  strings.Reader. At the end of the body Read returns \<open>0, io.EOF\<close>.
\<close>

record source =
  pending :: string
  grants :: "nat list"

definition src_Read :: "nat \<Rightarrow> source \<Rightarrow> (string \<times> error option) \<times> source" where
  "src_Read lenp s =
     (if pending s = [] then (([], Some EOF), s)
      else
        let g = (case grants s of [] \<Rightarrow> length (pending s) | c # _ \<Rightarrow> max 1 c);
            k = min lenp (min (length (pending s)) g)
        in ((take k (pending s), None),
            s\<lparr>pending := drop k (pending s), grants := tl (grants s)\<rparr>))"

text \<open>
  bufio.Reader over such a source is modelled by the byte stream it exposes, again a
  \<^typ>\<open>source\<close>: how many bytes one Read returns depends on how full the buffer
  happens to be, which \<open>grants\<close> stands for. A Read into an empty \<open>p\<close>
  returns \<open>0, nil\<close> without touching the stream. ReadString reads up to and
  including the first delimiter; without one it returns what is left together with io.EOF.
\<close>

definition bufio_Read :: "nat \<Rightarrow> source \<Rightarrow> (string \<times> error option) \<times> source" where
  "bufio_Read lenp s = (if lenp = 0 then (([], None), s) else src_Read lenp s)"

definition bufio_ReadString :: "char \<Rightarrow> source \<Rightarrow> (string \<times> error option) \<times> source" where
  "bufio_ReadString delim s =
     (if delim \<in> set (pending s)
      then let line = takeWhile (\<lambda>c. c \<noteq> delim) (pending s) @ [delim]
           in ((line, None), s\<lparr>pending := drop (length line) (pending s)\<rparr>)
      else ((pending s, Some EOF), s\<lparr>pending := []\<rparr>))"

section \<open>Library functions of strings, strconv and unicode that the code calls\<close>

text \<open>The lower-case form of one ASCII byte, for EqualFold below.\<close>

definition ToLower :: "char \<Rightarrow> char" where
  "ToLower c = (let v = (of_char c :: nat) in if 65 \<le> v \<and> v \<le> 90 then char_of (v + 32) else c)"

text \<open>
  unicode.IsSpace on the UTF-8 encoding of one rune: the six ASCII white-space bytes,
  U+0085, U+00A0, U+1680, U+2000 to U+200A, U+2028, U+2029, U+202F, U+205F, U+3000.
\<close>

definition space_rune :: "string \<Rightarrow> bool" where
  "space_rune bs \<longleftrightarrow> map of_char bs \<in> set
     [[9], [10], [11], [12], [13], [32], [194, 133], [194, 160], [225, 154, 128],
      [226, 128, 128], [226, 128, 129], [226, 128, 130], [226, 128, 131], [226, 128, 132],
      [226, 128, 133], [226, 128, 134], [226, 128, 135], [226, 128, 136], [226, 128, 137],
      [226, 128, 138], [226, 128, 168], [226, 128, 169], [226, 128, 175], [226, 129, 159],
      [227, 128, 128 :: nat]]"

definition leading_space :: "string \<Rightarrow> nat" where
  "leading_space s =
     (if space_rune (take 1 s) then 1 else if space_rune (take 2 s) then 2
      else if space_rune (take 3 s) then 3 else 0)"

definition trailing_space :: "string \<Rightarrow> nat" where
  "trailing_space s =
     (if space_rune (drop (length s - 1) s) then 1 else if space_rune (drop (length s - 2) s) then 2
      else if space_rune (drop (length s - 3) s) then 3 else 0)"

lemma space_rune_Nil: "\<not> space_rune []"
  by (simp add: space_rune_def)

lemma leading_space_Nil: "leading_space [] = 0"
  by (simp add: leading_space_def space_rune_Nil)

lemma trailing_space_Nil: "trailing_space [] = 0"
  by (simp add: trailing_space_def space_rune_Nil)

function TrimLeftSpace :: "string \<Rightarrow> string" where
  "TrimLeftSpace s = (if leading_space s = 0 then s else TrimLeftSpace (drop (leading_space s) s))"
  by pat_completeness auto
termination
proof (relation "measure length")
  fix s :: string
  assume "leading_space s \<noteq> 0"
  then have "s \<noteq> []" using leading_space_Nil by auto
  with \<open>leading_space s \<noteq> 0\<close> show "(drop (leading_space s) s, s) \<in> measure length"
    by simp
qed simp

declare TrimLeftSpace.simps [simp del]

function TrimRightSpace :: "string \<Rightarrow> string" where
  "TrimRightSpace s =
     (if trailing_space s = 0 then s else TrimRightSpace (take (length s - trailing_space s) s))"
  by pat_completeness auto
termination
proof (relation "measure length")
  fix s :: string
  assume "trailing_space s \<noteq> 0"
  then have "s \<noteq> []" using trailing_space_Nil by auto
  with \<open>trailing_space s \<noteq> 0\<close> show "(take (length s - trailing_space s) s, s) \<in> measure length"
    by simp
qed simp

declare TrimRightSpace.simps [simp del]

definition TrimSpace :: "string \<Rightarrow> string" where
  "TrimSpace s = TrimRightSpace (TrimLeftSpace s)"

text \<open>strings.IndexByte: the index of the first occurrence, or -1.\<close>

fun IndexByte :: "string \<Rightarrow> char \<Rightarrow> int" where
  "IndexByte [] c = -1"
| "IndexByte (x # xs) c = (if x = c then 0 else let i = IndexByte xs c in if i < 0 then -1 else i + 1)"

definition TrimSuffix :: "string \<Rightarrow> string \<Rightarrow> string" where
  "TrimSuffix s suffix =
     (if length suffix \<le> length s \<and> drop (length s - length suffix) s = suffix
      then take (length s - length suffix) s else s)"

text \<open>
  strings.EqualFold where the second argument is ASCII, as in the code's comparisons with
  \<open>"chunked"\<close>: a byte matches the same letter in either case; beyond ASCII only
  U+212A (Kelvin sign) folds to k and U+017F (long s) folds to s.
\<close>

fun EqualFold :: "string \<Rightarrow> string \<Rightarrow> bool" where
  "EqualFold s [] = (s = [])"
| "EqualFold s (y # ys) =
     (case s of [] \<Rightarrow> False
      | x # xs \<Rightarrow>
          if ToLower x = ToLower y then EqualFold xs ys
          else if ToLower y = CHR ''k'' \<and> take 3 s = [CHR 0xE2, CHR 0x84, CHR 0xAA] then EqualFold (drop 3 s) ys
          else if ToLower y = CHR ''s'' \<and> take 2 s = [CHR 0xC5, CHR 0xBF] then EqualFold (drop 2 s) ys
          else False)"

text \<open>
  strconv.ParseUint and strconv.ParseInt with bitSize 64 and a base from 2 to 36 given
  by the caller (the code uses 10 and 16, never 0, so no prefix and no underscore is
  accepted). Digits are read left to right; the first bad digit is a syntax error, the
  first step past \<open>2^64 - 1\<close> a range error.
\<close>

definition digit_val :: "char \<Rightarrow> int option" where
  "digit_val c =
     (let v = (of_char c :: int) in
      if 48 \<le> v \<and> v \<le> 57 then Some (v - 48)
      else if 97 \<le> v \<and> v \<le> 122 then Some (v - 97 + 10)
      else if 65 \<le> v \<and> v \<le> 90 then Some (v - 65 + 10)
      else None)"

fun parse_digits :: "int \<Rightarrow> int \<Rightarrow> string \<Rightarrow> error + int" where
  "parse_digits b acc [] = Inr acc"
| "parse_digits b acc (c # cs) =
     (case digit_val c of None \<Rightarrow> Inl ErrSyntax
      | Some d \<Rightarrow>
          if d \<ge> b then Inl ErrSyntax
          else if acc * b + d \<ge> 2 ^ 64 then Inl ErrRange
          else parse_digits b (acc * b + d) cs)"

definition ParseUint :: "string \<Rightarrow> int \<Rightarrow> error + int" where
  "ParseUint s b = (if s = [] then Inl ErrSyntax else parse_digits b 0 s)"

definition ParseInt :: "string \<Rightarrow> int \<Rightarrow> error + int" where
  "ParseInt s b =
     (case s of [] \<Rightarrow> Inl ErrSyntax
      | c # cs \<Rightarrow>
          let neg = (c = CHR ''-'');
              s1 = (if c = CHR ''+'' \<or> c = CHR ''-'' then cs else s)
          in (case ParseUint s1 b of
                Inl e \<Rightarrow> Inl e
              | Inr un \<Rightarrow>
                  if \<not> neg \<and> un \<ge> 2 ^ 63 then Inl ErrRange
                  else if neg \<and> un > 2 ^ 63 then Inl ErrRange
                  else Inr (if neg then - un else un)))"

text \<open>
  strconv.FormatInt for a base from 2 to 36 (lower-case digits) and strconv.Itoa;
  \<open>format_digits\<close> writes a number that is not negative.
\<close>

definition digit_char :: "int \<Rightarrow> char" where
  "digit_char d = (if d < 10 then char_of (48 + d) else char_of (87 + d))"

function format_digits :: "int \<Rightarrow> int \<Rightarrow> string" where
  "format_digits b n =
     (if b < 2 \<or> n < b then [digit_char n] else format_digits b (n div b) @ [digit_char (n mod b)])"
  by pat_completeness auto
termination
proof (relation "measure (\<lambda>(b, n). nat n)")
  fix b n :: int
  assume "\<not> (b < 2 \<or> n < b)"
  then have "2 \<le> b" and "b \<le> n" by auto
  then have "n div b < n" by (simp add: int_div_less_self)
  with \<open>2 \<le> b\<close> \<open>b \<le> n\<close> show "((b, n div b), (b, n)) \<in> measure (\<lambda>(b, n). nat n)"
    by simp
qed simp

declare format_digits.simps [simp del]

definition FormatInt :: "int \<Rightarrow> int \<Rightarrow> string" where
  "FormatInt i b = (if i < 0 then CHR ''-'' # format_digits b (- i) else format_digits b i)"

definition Itoa :: "int \<Rightarrow> string" where
  "Itoa i = FormatInt i 10"

text \<open>
  Runes and UTF-8, as the conversions \<open>[]rune(p)\<close> and \<open>string(runes)\<close> of
  CanonicalHeaderKey see them. A rune is an int32. \<open>decoderune\<close> reads one rune of
  two to four bytes: a sequence that is cut short, has a bad continuation byte, is
  longer than needed, encodes a surrogate or lies beyond U+10FFFF gives U+FFFD and a
  width of one byte. \<open>encoderune\<close> writes U+FFFD for a surrogate and for a rune
  outside 0 to U+10FFFF.
\<close>

type_synonym rune = int

definition RuneError :: rune where
  "RuneError = 0xFFFD"

definition continuation :: "char \<Rightarrow> bool" where
  "continuation c \<longleftrightarrow> 0x80 \<le> (of_char c :: int) \<and> (of_char c :: int) \<le> 0xBF"

definition decoderune :: "string \<Rightarrow> rune \<times> nat" where
  "decoderune s =
     (let b = (\<lambda>i. (of_char (s ! i) :: int));
          two = (b 0 mod 32) * 64 + b 1 mod 64;
          three = (b 0 mod 16) * 4096 + (b 1 mod 64) * 64 + b 2 mod 64;
          four = (b 0 mod 8) * 262144 + (b 1 mod 64) * 4096 + (b 2 mod 64) * 64 + b 3 mod 64
      in if s = [] then (RuneError, 1)
         else if 0xC0 \<le> b 0 \<and> b 0 < 0xE0 \<and> length s > 1 \<and> continuation (s ! 1) \<and> 0x7F < two
         then (two, 2)
         else if 0xE0 \<le> b 0 \<and> b 0 < 0xF0 \<and> length s > 2 \<and> continuation (s ! 1) \<and> continuation (s ! 2)
                 \<and> 0x7FF < three \<and> \<not> (0xD800 \<le> three \<and> three \<le> 0xDFFF)
         then (three, 3)
         else if 0xF0 \<le> b 0 \<and> b 0 < 0xF8 \<and> length s > 3 \<and> continuation (s ! 1) \<and> continuation (s ! 2)
                 \<and> continuation (s ! 3) \<and> 0xFFFF < four \<and> four \<le> 0x10FFFF
         then (four, 4)
         else (RuneError, 1))"

lemma decoderune_width: "decoderune s = (r, w) \<Longrightarrow> 0 < w"
  by (auto simp: decoderune_def Let_def split: if_splits)

text \<open>\<open>[]rune(s)\<close>: a byte below 0x80 is its own rune, the others go through decoderune.\<close>

function runes :: "string \<Rightarrow> rune list" where
  "runes s =
     (if s = [] then []
      else if (of_char (hd s) :: int) < 0x80 then of_char (hd s) # runes (tl s)
      else case decoderune s of (r, w) \<Rightarrow> r # runes (drop w s))"
  by pat_completeness auto
termination
  by (relation "measure length") (auto dest: decoderune_width [OF sym])

declare runes.simps [simp del]

definition encoderune :: "rune \<Rightarrow> string" where
  "encoderune r =
     (let three = (\<lambda>r. [char_of (0xE0 + r div 4096), char_of (0x80 + (r div 64) mod 64), char_of (0x80 + r mod 64)])
      in if 0 \<le> r \<and> r \<le> 0x7F then [char_of r]
         else if 0 \<le> r \<and> r \<le> 0x7FF then [char_of (0xC0 + r div 64), char_of (0x80 + r mod 64)]
         else if r < 0 \<or> 0x10FFFF < r \<or> (0xD800 \<le> r \<and> r \<le> 0xDFFF) then three RuneError
         else if r \<le> 0xFFFF then three r
         else [char_of (0xF0 + r div 262144), char_of (0x80 + (r div 4096) mod 64),
               char_of (0x80 + (r div 64) mod 64), char_of (0x80 + r mod 64)])"

definition string_of_runes :: "rune list \<Rightarrow> string" where
  "string_of_runes rs = concat (map encoderune rs)"

text \<open>
  unicode.ToUpper and unicode.ToLower. Up to MaxASCII they map the letters themselves;
  beyond it they return \<open>unicode.To(_case, r)\<close>, which looks the rune up in the table
  unicode.CaseRanges. That table is data of the Go distribution, not of this
  repository: the function \<open>To\<close> is a parameter of everything that canonicalizes a
  header key, and every statement below holds for whatever the table maps.
\<close>

datatype Case = UpperCase | LowerCase | TitleCase

type_synonym CaseMapping = "Case \<Rightarrow> rune \<Rightarrow> rune"

definition unicode_ToUpper :: "CaseMapping \<Rightarrow> rune \<Rightarrow> rune" where
  "unicode_ToUpper To r =
     (if r \<le> 0x7F then (if 97 \<le> r \<and> r \<le> 122 then r - 32 else r) else To UpperCase r)"

definition unicode_ToLower :: "CaseMapping \<Rightarrow> rune \<Rightarrow> rune" where
  "unicode_ToLower To r =
     (if r \<le> 0x7F then (if 65 \<le> r \<and> r \<le> 90 then r + 32 else r) else To LowerCase r)"

section \<open>Header (package httpx)\<close>

text \<open>
  \<open>type Header map[string][]string\<close>: an association list with distinct keys. The
  order of the list stands for the order in which one \<open>range\<close> over the map happens
  to visit the keys.
\<close>

type_synonym Header = "(string \<times> string list) list"

text \<open>strings.Split(s, "-") and strings.Join(parts, "-").\<close>

fun Split :: "string \<Rightarrow> char \<Rightarrow> string list" where
  "Split [] sep = [[]]"
| "Split (x # xs) sep =
     (if x = sep then [] # Split xs sep
      else (case Split xs sep of [] \<Rightarrow> [[x]] | p # ps \<Rightarrow> (x # p) # ps))"

fun Join :: "string list \<Rightarrow> string \<Rightarrow> string" where
  "Join [] sep = []"
| "Join [p] sep = p"
| "Join (p # q # ps) sep = p @ sep @ Join (q # ps) sep"

text \<open>
  CanonicalHeaderKey splits the key at every dash, converts each part that is not empty
  to runes, upper-cases the first rune and lower-cases the others, and joins the parts
  again. (A part that is not empty has a first rune.)
\<close>

definition canonical_part :: "CaseMapping \<Rightarrow> string \<Rightarrow> string" where
  "canonical_part To p =
     (if p = [] then p
      else case runes p of
             [] \<Rightarrow> []
           | r # rs \<Rightarrow> string_of_runes (unicode_ToUpper To r # map (unicode_ToLower To) rs))"

definition CanonicalHeaderKey :: "CaseMapping \<Rightarrow> string \<Rightarrow> string" where
  "CanonicalHeaderKey To s =
     (if s = [] then []
      else Join (map (canonical_part To) (Split s (CHR ''-''))) [CHR ''-''])"

text \<open>
  \<open>h[k] = vs\<close> on the association list, and the methods Add, Get and Values.
  \<open>h[k]\<close> of a key that is absent is the nil slice.
\<close>

fun header_put :: "Header \<Rightarrow> string \<Rightarrow> string list \<Rightarrow> Header" where
  "header_put [] k vs = [(k, vs)]"
| "header_put ((k', vs') # h) k vs = (if k' = k then (k, vs) # h else (k', vs') # header_put h k vs)"

definition header_at :: "Header \<Rightarrow> string \<Rightarrow> string list" where
  "header_at h k = (case map_of h k of None \<Rightarrow> [] | Some vs \<Rightarrow> vs)"

definition Add :: "CaseMapping \<Rightarrow> Header \<Rightarrow> string \<Rightarrow> string \<Rightarrow> Header" where
  "Add To h key val =
     (let k = CanonicalHeaderKey To key
      in header_put h k (header_at h k @ [val]))"

definition Get :: "CaseMapping \<Rightarrow> Header \<Rightarrow> string \<Rightarrow> string" where
  "Get To h key =
     (case map_of h (CanonicalHeaderKey To key) of
        Some (v # _) \<Rightarrow> v
      | _ \<Rightarrow> [])"

definition Values :: "CaseMapping \<Rightarrow> Header \<Rightarrow> string \<Rightarrow> string list" where
  "Values To h key = header_at h (CanonicalHeaderKey To key)"

section \<open>CRLFFastReader (package netx)\<close>

definition DefaultBufSize :: nat where
  "DefaultBufSize = 4096"

text \<open>
  The reader wraps a bufio.Reader of DefaultBufSize bytes; \<open>br\<close> is the byte stream
  that reader exposes. \<open>bufio.Reader.ReadSlice('\n')\<close> returns the bytes up to and
  including the first line feed when it lies within the next DefaultBufSize bytes, a
  full buffer together with ErrBufferFull when that many bytes hold no line feed, and
  otherwise whatever is left together with io.EOF.
\<close>

record CRLFFastReader =
  br :: source
  bufSize :: nat

definition NewCRLFFastReader :: "source \<Rightarrow> CRLFFastReader" where
  "NewCRLFFastReader r = \<lparr>br = r, bufSize = DefaultBufSize\<rparr>"

definition ReadSlice :: "source \<Rightarrow> (string \<times> error option) \<times> source" where
  "ReadSlice s =
     (let w = take DefaultBufSize (pending s) in
      if LF \<in> set w
      then let line = takeWhile (\<lambda>c. c \<noteq> LF) w @ [LF]
           in ((line, None), s\<lparr>pending := drop (length line) (pending s)\<rparr>)
      else if DefaultBufSize \<le> length (pending s)
      then ((w, Some ErrBufferFull), s\<lparr>pending := drop DefaultBufSize (pending s)\<rparr>)
      else ((pending s, Some EOF), s\<lparr>pending := []\<rparr>))"

text \<open>Lines 65 to 72 of ReadLine: drop one trailing line feed and one carriage return before it.\<close>

definition trim_line_end :: "string \<Rightarrow> string" where
  "trim_line_end buf =
     (let n = length buf in
      if n > 0 \<and> buf ! (n - 1) = LF
      then let n1 = n - 1 in
           if n1 > 0 \<and> buf ! (n1 - 1) = CR then take (n1 - 1) buf else take n1 buf
      else take n buf)"

lemma ReadSlice_full_shrinks:
  "ReadSlice s = ((part, Some ErrBufferFull), s') \<Longrightarrow> length (pending s') < length (pending s)"
  by (auto simp: ReadSlice_def Let_def DefaultBufSize_def split: if_splits)

text \<open>The loop of ReadLine; the result is \<open>(line, isPrefix, err)\<close>.\<close>

function ReadLine_loop :: "int \<Rightarrow> string \<Rightarrow> source \<Rightarrow> (string \<times> bool \<times> error option) \<times> source" where
  "ReadLine_loop mx buf s =
     (case ReadSlice s of
        ((part, perr), s') \<Rightarrow>
          if int (length buf) + int (length part) > mx then (([], True, Some ErrLineTooLong), s')
          else
            let buf' = buf @ part in
            if perr = None then ((trim_line_end buf', False, None), s')
            else if perr = Some ErrBufferFull then ReadLine_loop mx buf' s'
            else if perr = Some EOF then
              (if length buf' = 0 then (([], False, Some EOF), s') else ((buf', False, Some EOF), s'))
            else ((buf', False, perr), s'))"
  by pat_completeness auto
termination
  by (relation "measure (\<lambda>(mx, buf, s). length (pending s))")
     (auto dest: ReadSlice_full_shrinks [OF sym])

declare ReadLine_loop.simps [simp del]

definition ReadLine :: "int \<Rightarrow> CRLFFastReader \<Rightarrow> (string \<times> bool \<times> error option) \<times> CRLFFastReader" where
  "ReadLine mx r =
     (if mx \<le> 0 then (([], False, Some ErrInvalidMax), r)
      else case ReadLine_loop mx [] (br r) of (res, s') \<Rightarrow> (res, r\<lparr>br := s'\<rparr>))"

section \<open>Body readers (package httpx)\<close>

subsection \<open>fixedReader\<close>

record fixedReader =
  fr_ctx :: Context
  fr_r :: source
  fr_n :: int
  fr_limit :: int
  fr_readTotal :: int

definition newFixedReader :: "Context \<Rightarrow> source \<Rightarrow> int \<Rightarrow> int \<Rightarrow> fixedReader" where
  "newFixedReader ctx r n limit = \<lparr>fr_ctx = ctx, fr_r = r, fr_n = n, fr_limit = limit, fr_readTotal = 0\<rparr>"

text \<open>
  \<open>Read(p)\<close>: the argument is \<open>len(p)\<close>, the result is the bytes stored into
  \<open>p\<close> (so \<open>n\<close> is their number) with the error, and the reader after the call.
\<close>

definition fixedReader_Read :: "nat \<Rightarrow> fixedReader \<Rightarrow> (string \<times> error option) \<times> fixedReader" where
  "fixedReader_Read lenp f =
     (case fr_ctx f of
        Some e \<Rightarrow> (([], Some e), f)
      | None \<Rightarrow>
          if fr_n f \<le> 0 then (([], Some EOF), f)
          else
            let m = (if int lenp > fr_n f then nat (fr_n f) else lenp) in
            (case src_Read m (fr_r f) of
               ((bs, err), r') \<Rightarrow>
                 let f' = f\<lparr>fr_r := r',
                            fr_n := fr_n f - int (length bs),
                            fr_readTotal := fr_readTotal f + int (length bs)\<rparr>
                 in if fr_limit f' > 0 \<and> fr_readTotal f' > fr_limit f' then ((bs, Some ErrBodyTooLarge), f')
                    else if err = Some EOF \<and> fr_n f' > 0 then ((bs, Some ErrLengthMismatch), f')
                    else if fr_n f' = 0 then ((bs, Some EOF), f')
                    else ((bs, err), f')))"

subsection \<open>chunkedReader\<close>

datatype chunkState = stateChunkHeader | stateChunkData | stateChunkCRLF | stateTrailer | stateDone

record chunkedReader =
  cr_ctx :: Context
  cr_r :: source
  cr_state :: chunkState
  cr_remain :: int
  cr_limit :: int
  cr_readTotal :: int
  cr_header :: Header

definition newChunkedReader :: "Context \<Rightarrow> source \<Rightarrow> int \<Rightarrow> Header \<Rightarrow> chunkedReader" where
  "newChunkedReader ctx src limit hdr =
     \<lparr>cr_ctx = ctx, cr_r = src, cr_state = stateChunkHeader, cr_remain = 0,
      cr_limit = limit, cr_readTotal = 0, cr_header = hdr\<rparr>"

definition nextChunkSize :: "source \<Rightarrow> (error + int) \<times> source" where
  "nextChunkSize s =
     (case bufio_ReadString LF s of
        ((line, err), s') \<Rightarrow>
          (case err of
             Some e \<Rightarrow> (Inl e, s')
           | None \<Rightarrow>
               let line1 = TrimSpace line in
               if line1 = [] then (Inl ErrBadChunk, s')
               else
                 let semi = IndexByte line1 (CHR '';'');
                     line2 = (if semi \<ge> 0 then take (nat semi) line1 else line1)
                 in (case ParseInt line2 16 of
                       Inl e \<Rightarrow> (Inl ErrBadChunk, s')
                     | Inr sz \<Rightarrow> if sz < 0 then (Inl ErrBadChunk, s') else (Inr sz, s'))))"

lemma bufio_ReadString_shrinks:
  "bufio_ReadString d s = ((line, None), s') \<Longrightarrow> length (pending s') < length (pending s)"
proof -
  assume a: "bufio_ReadString d s = ((line, None), s')"
  then have "pending s \<noteq> []" and "pending s' = drop (length line) (pending s)" and "line \<noteq> []"
    by (auto simp: bufio_ReadString_def Let_def split: if_splits)
  then show ?thesis by simp
qed

text \<open>readTrailers, on the stream and the header store of the reader.\<close>

function readTrailers :: "CaseMapping \<Rightarrow> source \<Rightarrow> Header \<Rightarrow> error option \<times> source \<times> Header" where
  "readTrailers To s h =
     (case bufio_ReadString LF s of
        ((line, err), s') \<Rightarrow>
          if err \<noteq> None then (Some ErrUnexpectedTrailer, s', h)
          else if line = CRLF then (None, s', h)
          else
            let line1 = TrimSuffix line CRLF;
                i = IndexByte line1 (CHR '':'')
            in if i \<le> 0 then (Some ErrUnexpectedTrailer, s', h)
               else
                 let key = CanonicalHeaderKey To (take (nat i) line1);
                     val = TrimSpace (drop (nat (i + 1)) line1)
                 in readTrailers To s' (Add To h key val))"
  by pat_completeness auto
termination
  by (relation "measure (\<lambda>(To, s, h). length (pending s))")
     (auto dest: bufio_ReadString_shrinks [OF sym])

declare readTrailers.simps [simp del]

definition chunkedReader_Read :: "CaseMapping \<Rightarrow> nat \<Rightarrow> chunkedReader \<Rightarrow> (string \<times> error option) \<times> chunkedReader" where
  "chunkedReader_Read To lenp c =
     (case cr_ctx c of
        Some e \<Rightarrow> (([], Some e), c)
      | None \<Rightarrow>
         (case cr_state c of
            stateDone \<Rightarrow> (([], Some EOF), c)
          | stateChunkHeader \<Rightarrow>
              (case nextChunkSize (cr_r c) of
                 (Inl e, s') \<Rightarrow> (([], Some e), c\<lparr>cr_r := s'\<rparr>)
               | (Inr sz, s') \<Rightarrow>
                   if sz = 0 then (([], None), c\<lparr>cr_r := s', cr_state := stateTrailer\<rparr>)
                   else (([], None), c\<lparr>cr_r := s', cr_remain := sz, cr_state := stateChunkData\<rparr>))
          | stateChunkData \<Rightarrow>
              if cr_remain c \<le> 0 then (([], None), c\<lparr>cr_state := stateChunkCRLF\<rparr>)
              else
                let m = (if int lenp > cr_remain c then nat (cr_remain c) else lenp) in
                (case bufio_Read m (cr_r c) of
                   ((bs, err), s') \<Rightarrow>
                     let c' = c\<lparr>cr_r := s',
                                cr_remain := cr_remain c - int (length bs),
                                cr_readTotal := cr_readTotal c + int (length bs)\<rparr>
                     in if cr_limit c' > 0 \<and> cr_readTotal c' > cr_limit c' then ((bs, Some ErrBodyTooLarge), c')
                        else if err \<noteq> None then ((bs, err), c')
                        else if cr_remain c' = 0 then ((bs, None), c'\<lparr>cr_state := stateChunkCRLF\<rparr>)
                        else ((bs, None), c'))
          | stateChunkCRLF \<Rightarrow>
              (case bufio_ReadString LF (cr_r c) of
                 ((line, err), s') \<Rightarrow>
                   if err \<noteq> None then (([], Some ErrBadChunk), c\<lparr>cr_r := s'\<rparr>)
                   else if line \<noteq> CRLF then (([], Some ErrBadChunk), c\<lparr>cr_r := s'\<rparr>)
                   else (([], None), c\<lparr>cr_r := s', cr_state := stateChunkHeader\<rparr>))
          | stateTrailer \<Rightarrow>
              (case readTrailers To (cr_r c) (cr_header c) of
                 (Some e, s', h') \<Rightarrow> (([], Some e), c\<lparr>cr_r := s', cr_header := h'\<rparr>)
               | (None, s', h') \<Rightarrow>
                   (([], Some EOF), c\<lparr>cr_r := s', cr_header := h', cr_state := stateDone\<rparr>))))"

subsection \<open>closeReader\<close>

record closeReader =
  cl_ctx :: Context
  cl_r :: source
  cl_limit :: int
  cl_readTotal :: int

definition newCloseReader :: "Context \<Rightarrow> source \<Rightarrow> int \<Rightarrow> closeReader" where
  "newCloseReader ctx r limit = \<lparr>cl_ctx = ctx, cl_r = r, cl_limit = limit, cl_readTotal = 0\<rparr>"

definition closeReader_Read :: "nat \<Rightarrow> closeReader \<Rightarrow> (string \<times> error option) \<times> closeReader" where
  "closeReader_Read lenp c =
     (case cl_ctx c of
        Some e \<Rightarrow> (([], Some e), c)
      | None \<Rightarrow>
          if cl_limit c > 0 \<and> cl_limit c - cl_readTotal c \<le> 0 then (([], Some EOF), c)
          else
            let m = (if cl_limit c > 0 \<and> int lenp > cl_limit c - cl_readTotal c
                     then nat (cl_limit c - cl_readTotal c) else lenp) in
            (case src_Read m (cl_r c) of
               ((bs, err), r') \<Rightarrow>
                 let c' = c\<lparr>cl_r := r', cl_readTotal := cl_readTotal c + int (length bs)\<rparr>
                 in if cl_limit c' > 0 \<and> cl_readTotal c' > cl_limit c' then ((bs, Some ErrBodyTooLarge), c')
                    else ((bs, err), c')))"

subsection \<open>NewBodyReader\<close>

text \<open>
  The io.ReadCloser that NewBodyReader returns is one of the three readers; \<open>Read\<close>
  dispatches on which. The function takes \<open>req.Header\<close>, the only part of the request
  it looks at. On an error Go returns \<open>nil, 0, err\<close>: \<open>Inl err\<close>.
\<close>

datatype bodyReader = Chunked chunkedReader | Fixed fixedReader | UntilClose closeReader

definition NewBodyReader :: "CaseMapping \<Rightarrow> Context \<Rightarrow> Header \<Rightarrow> source \<Rightarrow> int \<Rightarrow> error + (bodyReader \<times> int)" where
  "NewBodyReader To ctx h r maxSize =
     (if EqualFold (Get To h ''Transfer-Encoding'') ''chunked''
      then Inr (Chunked (newChunkedReader ctx r maxSize h), -1)
      else
        let cl = Get To h ''Content-Length'' in
        if cl \<noteq> [] then
          (case ParseInt (TrimSpace cl) 10 of
             Inl e \<Rightarrow> Inl ErrLengthMismatch
           | Inr n \<Rightarrow>
               if n < 0 then Inl ErrLengthMismatch
               else if maxSize > 0 \<and> n > maxSize then Inl ErrBodyTooLarge
               else Inr (Fixed (newFixedReader ctx r n maxSize), n))
        else Inr (UntilClose (newCloseReader ctx r maxSize), -1))"

fun Read :: "CaseMapping \<Rightarrow> nat \<Rightarrow> bodyReader \<Rightarrow> (string \<times> error option) \<times> bodyReader" where
  "Read To lenp (Chunked c) = (case chunkedReader_Read To lenp c of (res, c') \<Rightarrow> (res, Chunked c'))"
| "Read To lenp (Fixed f) = (case fixedReader_Read lenp f of (res, f') \<Rightarrow> (res, Fixed f'))"
| "Read To lenp (UntilClose c) = (case closeReader_Read lenp c of (res, c') \<Rightarrow> (res, UntilClose c'))"

text \<open>
  io.ReadAll, the way the tests drain a body: Read is called until it reports an error,
  the bytes are concatenated, and io.EOF is turned into no error. The list gives
  \<open>len(p)\<close> of every call; a drain that needs more calls than the list holds has no
  result.
\<close>

fun ReadAll :: "(nat \<Rightarrow> 'r \<Rightarrow> (string \<times> error option) \<times> 'r) \<Rightarrow> nat list \<Rightarrow> 'r
    \<Rightarrow> ((string \<times> error option) \<times> 'r) option" where
  "ReadAll rd [] r = None"
| "ReadAll rd (lenp # ps) r =
     (case rd lenp r of
        ((bs, None), r') \<Rightarrow>
          (case ReadAll rd ps r' of
             None \<Rightarrow> None
           | Some ((out, err), r'') \<Rightarrow> Some ((bs @ out, err), r''))
      | ((bs, Some e), r') \<Rightarrow> Some ((bs, if e = EOF then None else Some e), r'))"

section \<open>Response writer (package httpx)\<close>

subsection \<open>bufio.Writer and io.Copy\<close>

text \<open>
  bufio.Writer of the default size (4096 bytes) over an in-memory sink that never fails:
  \<open>wr\<close> is what the sink has received, \<open>wbuf\<close> what the buffer holds. A write
  that does not fit goes straight to the sink when the buffer is empty; otherwise the
  buffer is filled and flushed first. Since the sink never fails, neither do Write,
  WriteString and Flush, and the model returns the writer only.
\<close>

record Writer =
  wr :: string
  wbuf :: string

definition NewWriter :: "string \<Rightarrow> Writer" where
  "NewWriter w = \<lparr>wr = w, wbuf = []\<rparr>"

definition Flush :: "Writer \<Rightarrow> Writer" where
  "Flush b = b\<lparr>wr := wr b @ wbuf b, wbuf := []\<rparr>"

definition Writer_Write :: "string \<Rightarrow> Writer \<Rightarrow> Writer" where
  "Writer_Write p b =
     (let avail = 4096 - length (wbuf b) in
      if length p \<le> avail then b\<lparr>wbuf := wbuf b @ p\<rparr>
      else if wbuf b = [] then b\<lparr>wr := wr b @ p\<rparr>
      else
        let b1 = Flush (b\<lparr>wbuf := wbuf b @ take avail p\<rparr>);
            p1 = drop avail p
        in if length p1 > 4096 then b1\<lparr>wr := wr b1 @ p1\<rparr> else b1\<lparr>wbuf := p1\<rparr>)"

definition Writer_WriteString :: "string \<Rightarrow> Writer \<Rightarrow> Writer" where
  "Writer_WriteString s b = Writer_Write s b"

text \<open>The writer as an io.Writer: \<open>Write(p)\<close> returns \<open>len(p), nil\<close>.\<close>

definition Writer_io_Write :: "string \<Rightarrow> Writer \<Rightarrow> (nat \<times> error option) \<times> Writer" where
  "Writer_io_Write p b = ((length p, None), Writer_Write p b)"

text \<open>
  io.LimitedReader, and the two kinds of reader the copy loop of io.Copy reads from in
  WriteResponse: the response body itself, or the body behind io.LimitReader (io.CopyN).
\<close>

record LimitedReader =
  lr_R :: source
  lr_N :: int

definition LimitedReader_Read :: "nat \<Rightarrow> LimitedReader \<Rightarrow> (string \<times> error option) \<times> LimitedReader" where
  "LimitedReader_Read lenp l =
     (if lr_N l \<le> 0 then (([], Some EOF), l)
      else
        let m = (if int lenp > lr_N l then nat (lr_N l) else lenp) in
        (case src_Read m (lr_R l) of
           ((bs, err), r') \<Rightarrow> ((bs, err), l\<lparr>lr_R := r', lr_N := lr_N l - int (length bs)\<rparr>)))"

datatype copySrc = FromSource source | FromLimited LimitedReader

fun copySrc_Read :: "nat \<Rightarrow> copySrc \<Rightarrow> (string \<times> error option) \<times> copySrc" where
  "copySrc_Read lenp (FromSource s) = (case src_Read lenp s of (res, s') \<Rightarrow> (res, FromSource s'))"
| "copySrc_Read lenp (FromLimited l) = (case LimitedReader_Read lenp l of (res, l') \<Rightarrow> (res, FromLimited l'))"

fun copySrc_source :: "copySrc \<Rightarrow> source" where
  "copySrc_source (FromSource s) = s"
| "copySrc_source (FromLimited l) = lr_R l"

lemma src_Read_progress:
  assumes "src_Read lenp s = ((bs, None), s')" and "0 < lenp"
  shows "bs \<noteq> [] \<and> length (pending s') < length (pending s)"
proof -
  from assms(1) have ne: "pending s \<noteq> []"
    by (auto simp: src_Read_def split: if_splits)
  define g where "g = (case grants s of [] \<Rightarrow> length (pending s) | c # _ \<Rightarrow> max 1 c)"
  define k where "k = min lenp (min (length (pending s)) g)"
  from ne have "0 < g" by (auto simp: g_def split: list.splits)
  with ne assms(2) have kpos: "0 < k" by (simp add: k_def)
  from assms(1) ne have "bs = take k (pending s)" and "pending s' = drop k (pending s)"
    by (auto simp: src_Read_def Let_def g_def k_def)
  with kpos ne show ?thesis by auto
qed

lemma copySrc_Read_progress:
  assumes "copySrc_Read 32768 src = ((bs, None), src')"
  shows "bs \<noteq> [] \<and> length (pending (copySrc_source src')) < length (pending (copySrc_source src))"
proof (cases src)
  case (FromSource s)
  with assms obtain s' where "src_Read 32768 s = ((bs, None), s')" and "src' = FromSource s'"
    by (auto split: prod.splits)
  with FromSource src_Read_progress [of "32768" s bs s'] show ?thesis by simp
next
  case (FromLimited l)
  with assms have pos: "0 < lr_N l"
    by (auto simp: LimitedReader_Read_def split: if_splits)
  define m where "m = (if int (32768::nat) > lr_N l then nat (lr_N l) else 32768)"
  from pos have mpos: "0 < m" by (simp add: m_def)
  from assms FromLimited pos obtain r' where "src_Read m (lr_R l) = ((bs, None), r')"
    and "src' = FromLimited (l\<lparr>lr_R := r', lr_N := lr_N l - int (length bs)\<rparr>)"
    by (auto simp: LimitedReader_Read_def Let_def m_def split: prod.splits if_splits)
  with FromLimited src_Read_progress [OF _ mpos, of "lr_R l" bs r'] show ?thesis by simp
qed

text \<open>
  The read/write loop of io.Copy with its buffer of 32 KiB; \<open>wfn\<close> is the Write
  method of the destination. The result is \<open>(written, err)\<close> with the destination
  and the reader after the copy. (io.Copy leaves the copy to \<open>src.WriteTo\<close> or
  \<open>dst.ReadFrom\<close> when the reader or the destination has that method, as
  strings.Reader and bufio.Writer do; they hand the destination the same bytes in the same
  order, cut into other pieces. The model is the loop that io.Copy runs otherwise.)
\<close>

function copyBuffer :: "(string \<Rightarrow> 'd \<Rightarrow> (nat \<times> error option) \<times> 'd) \<Rightarrow> 'd \<Rightarrow> copySrc \<Rightarrow> int
    \<Rightarrow> (int \<times> error option) \<times> 'd \<times> copySrc" where
  "copyBuffer wfn dst src written =
     (case copySrc_Read 32768 src of
        ((bs, er), src') \<Rightarrow>
          if bs \<noteq> [] then
            (case wfn bs dst of
               ((nw, ew), dst') \<Rightarrow>
                 let ew' = (if length bs < nw \<and> ew = None then Some ErrInvalidWrite else ew);
                     nw' = (if length bs < nw then 0 else nw);
                     written' = written + int nw'
                 in if ew' \<noteq> None then ((written', ew'), dst', src')
                    else if length bs \<noteq> nw' then ((written', Some ErrShortWrite), dst', src')
                    else if er \<noteq> None then ((written', if er = Some EOF then None else er), dst', src')
                    else copyBuffer wfn dst' src' written')
          else if er \<noteq> None then ((written, if er = Some EOF then None else er), dst, src')
          else copyBuffer wfn dst src' written)"
  by pat_completeness auto
termination
  by (relation "measure (\<lambda>(wfn, dst, src, written). length (pending (copySrc_source src)))")
     (auto dest: copySrc_Read_progress [OF sym])

declare copyBuffer.simps [simp del]

definition io_Copy :: "(string \<Rightarrow> 'd \<Rightarrow> (nat \<times> error option) \<times> 'd) \<Rightarrow> 'd \<Rightarrow> source
    \<Rightarrow> (int \<times> error option) \<times> 'd \<times> source" where
  "io_Copy wfn dst src =
     (case copyBuffer wfn dst (FromSource src) 0 of
        (res, dst', src') \<Rightarrow> (res, dst', copySrc_source src'))"

definition io_CopyN :: "(string \<Rightarrow> 'd \<Rightarrow> (nat \<times> error option) \<times> 'd) \<Rightarrow> 'd \<Rightarrow> source \<Rightarrow> int
    \<Rightarrow> (int \<times> error option) \<times> 'd \<times> source" where
  "io_CopyN wfn dst src n =
     (case copyBuffer wfn dst (FromLimited \<lparr>lr_R = src, lr_N = n\<rparr>) 0 of
        ((written, err), dst', src') \<Rightarrow>
          if written = n then ((n, None), dst', copySrc_source src')
          else if written < n \<and> err = None then ((written, Some EOF), dst', copySrc_source src')
          else ((written, err), dst', copySrc_source src'))"

subsection \<open>chunkedWriter\<close>

record chunkedWriter =
  cw_ctx :: Context
  cw_w :: Writer

definition newChunkedWriter :: "Context \<Rightarrow> Writer \<Rightarrow> chunkedWriter" where
  "newChunkedWriter ctx w = \<lparr>cw_ctx = ctx, cw_w = w\<rparr>"

definition chunkedWriter_Write :: "string \<Rightarrow> chunkedWriter \<Rightarrow> (nat \<times> error option) \<times> chunkedWriter" where
  "chunkedWriter_Write p cw =
     (if length p = 0 then ((0, None), cw)
      else case cw_ctx cw of
        Some e \<Rightarrow> ((0, Some e), cw)
      | None \<Rightarrow>
          let w1 = Writer_WriteString (FormatInt (int (length p)) 16) (cw_w cw);
              w2 = Writer_WriteString CRLF w1;
              w3 = Writer_Write p w2;
              w4 = Writer_WriteString CRLF w3
          in ((length p, None), cw\<lparr>cw_w := w4\<rparr>))"

definition chunkedWriter_Close :: "chunkedWriter \<Rightarrow> error option \<times> chunkedWriter" where
  "chunkedWriter_Close cw =
     (case cw_ctx cw of
        Some e \<Rightarrow> (Some e, cw)
      | None \<Rightarrow> (None, cw\<lparr>cw_w := Writer_WriteString (''0'' @ CRLF @ CRLF) (cw_w cw)\<rparr>))"

subsection \<open>WriteResponse\<close>

record Response =
  Proto :: string
  StatusCode :: int
  Status :: string
  Header :: Header
  Body :: "source option"

text \<open>The two nested loops over the header map, with the poll of the context before every line.\<close>

fun write_values :: "Context \<Rightarrow> string \<Rightarrow> string list \<Rightarrow> Writer \<Rightarrow> error option \<times> Writer" where
  "write_values ctx ck [] bw = (None, bw)"
| "write_values ctx ck (v # vals) bw =
     (case ctx of
        Some e \<Rightarrow> (Some e, bw)
      | None \<Rightarrow> write_values ctx ck vals (Writer_WriteString (ck @ '': '' @ v @ CRLF) bw))"

fun write_headers :: "CaseMapping \<Rightarrow> Context \<Rightarrow> Header \<Rightarrow> Writer \<Rightarrow> error option \<times> Writer" where
  "write_headers To ctx [] bw = (None, bw)"
| "write_headers To ctx ((k, vals) # h) bw =
     (case write_values ctx (CanonicalHeaderKey To k) vals bw of
        (Some e, bw') \<Rightarrow> (Some e, bw')
      | (None, bw') \<Rightarrow> write_headers To ctx h bw')"

text \<open>
  The body strategy of WriteResponse (lines 77 to 109), on the bufio.Writer \<open>bw\<close>
  that the head has been written and flushed through. The result is the error and what
  the sink has received when the call returns: bytes left in the bufio.Writer on an early
  return never reach it.
\<close>

definition WriteResponse_body :: "CaseMapping \<Rightarrow> Context \<Rightarrow> Header \<Rightarrow> Writer \<Rightarrow> source \<Rightarrow> error option \<times> string" where
  "WriteResponse_body To ctx hdr bw body =
     (let clStr = Get To hdr ''Content-Length'' in
      if clStr \<noteq> [] then
        (case ParseInt (TrimSpace clStr) 10 of
           Inl e \<Rightarrow> (Some ErrLengthMismatch, wr bw)
         | Inr n \<Rightarrow>
             if n < 0 then (Some ErrLengthMismatch, wr bw)
             else
               (case io_CopyN Writer_io_Write bw body n of
                  ((written, Some e), bw', body') \<Rightarrow> (Some e, wr bw')
                | ((written, None), bw', body') \<Rightarrow> (None, wr (Flush bw'))))
      else if EqualFold (Get To hdr ''Transfer-Encoding'') ''chunked'' then
        (case io_Copy chunkedWriter_Write (newChunkedWriter ctx bw) body of
           ((written, Some e), cw, body') \<Rightarrow>
             (Some e, wr (cw_w (snd (chunkedWriter_Close cw))))
         | ((written, None), cw, body') \<Rightarrow>
             (case chunkedWriter_Close cw of
                (Some e, cw') \<Rightarrow> (Some e, wr (cw_w cw'))
              | (None, cw') \<Rightarrow> (None, wr (Flush (cw_w cw')))))
      else
        (case io_Copy Writer_io_Write bw body of
           ((written, Some e), bw', body') \<Rightarrow> (Some e, wr bw')
         | ((written, None), bw', body') \<Rightarrow> (None, wr (Flush bw'))))"

text \<open>
  WriteResponse on a sink that has received \<open>w\<close> so far: the poll of the context,
  the status line, the headers, the empty line and the flush (lines 27 to 75), then the
  body. The result is the error and what the sink has received when the call returns.
\<close>

definition WriteResponse :: "CaseMapping \<Rightarrow> Context \<Rightarrow> string \<Rightarrow> Response \<Rightarrow> error option \<times> string" where
  "WriteResponse To ctx w resp =
     (case ctx of
        Some e \<Rightarrow> (Some e, w)
      | None \<Rightarrow>
          let bw0 = NewWriter w;
              proto = (if Proto resp = [] then ''HTTP/1.1'' else Proto resp);
              status = (if Status resp = [] then Itoa (StatusCode resp) else Status resp);
              bw1 = Writer_WriteString (proto @ '' '' @ Itoa (StatusCode resp) @ '' '' @ status @ CRLF) bw0
          in (case write_headers To ctx (Header resp) bw1 of
                (Some e, bw2) \<Rightarrow> (Some e, wr bw2)
              | (None, bw2) \<Rightarrow>
                  let bw = Flush (Writer_WriteString CRLF bw2) in
                  (case Body resp of
                     None \<Rightarrow> (None, wr bw)
                   | Some body \<Rightarrow> WriteResponse_body To ctx (Header resp) bw body)))"

text \<open>
  Writing a list of buffers with one chunkedWriter over a fresh bufio.Writer and an
  empty sink, then Close and the Flush that WriteResponse ends with: the bytes on the wire.
\<close>

fun Write_each :: "string list \<Rightarrow> chunkedWriter \<Rightarrow> error option \<times> chunkedWriter" where
  "Write_each [] cw = (None, cw)"
| "Write_each (p # ps) cw =
     (case chunkedWriter_Write p cw of
        ((n, Some e), cw') \<Rightarrow> (Some e, cw')
      | ((n, None), cw') \<Rightarrow> Write_each ps cw')"

definition chunked_wire :: "Context \<Rightarrow> string list \<Rightarrow> error option \<times> string" where
  "chunked_wire ctx bufs =
     (case Write_each bufs (newChunkedWriter ctx (NewWriter [])) of
        (Some e, cw) \<Rightarrow> (Some e, wr (Flush (cw_w cw)))
      | (None, cw) \<Rightarrow>
          (case chunkedWriter_Close cw of (err, cw') \<Rightarrow> (err, wr (Flush (cw_w cw')))))"

text \<open>
  A consumer that calls Read again and again whatever the calls return: the list gives
  \<open>len(p)\<close> of every call, the result lists what the calls returned.
\<close>

fun Read_calls :: "(nat \<Rightarrow> 'r \<Rightarrow> (string \<times> error option) \<times> 'r) \<Rightarrow> nat list \<Rightarrow> 'r
    \<Rightarrow> (string \<times> error option) list \<times> 'r" where
  "Read_calls rd [] r = ([], r)"
| "Read_calls rd (lenp # ps) r =
     (case rd lenp r of
        (res, r') \<Rightarrow> (case Read_calls rd ps r' of (rs, r'') \<Rightarrow> (res # rs, r'')))"

text \<open>
  A case mapping that leaves every rune beyond ASCII as it is, for running the definitions
  on concrete header keys (ASCII keys never reach the table).
\<close>

definition unmapped :: CaseMapping where
  "unmapped c r = r"

text \<open>
  The next line as it stands in the stream, for the statements about ReadLine: the bytes
  up to and including the first line feed, or all that is left when there is none.
\<close>

definition raw_line :: "string \<Rightarrow> string" where
  "raw_line p = (if LF \<in> set p then takeWhile (\<lambda>c. c \<noteq> LF) p @ [LF] else p)"

text \<open>
  The chunk framing of the wire grammar, for the statements about the chunked writer and
  reader: one frame per chunk, then the terminal frame without trailers.
\<close>

definition chunk_frame :: "string \<Rightarrow> string" where
  "chunk_frame d = FormatInt (int (length d)) 16 @ CRLF @ d @ CRLF"

definition chunk_frames :: "string list \<Rightarrow> string" where
  "chunk_frames ds = concat (map chunk_frame ds) @ ''0'' @ CRLF @ CRLF"

text \<open>
  The head of a response on the wire, for the statements about WriteResponse: the status
  line, one line per header value in the order of the header list, and the empty line.
\<close>

definition header_lines :: "CaseMapping \<Rightarrow> Header \<Rightarrow> string" where
  "header_lines To h =
     concat (map (\<lambda>(k, vals). concat (map (\<lambda>v. CanonicalHeaderKey To k @ '': '' @ v @ CRLF) vals)) h)"

definition response_head :: "CaseMapping \<Rightarrow> Response \<Rightarrow> string" where
  "response_head To resp =
     (if Proto resp = [] then ''HTTP/1.1'' else Proto resp) @ '' '' @ Itoa (StatusCode resp) @ '' ''
       @ (if Status resp = [] then Itoa (StatusCode resp) else Status resp) @ CRLF
       @ header_lines To (Header resp) @ CRLF"

text \<open>
  The trailer section on the wire, for the statements about readTrailers. A field is a
  key, a value and the end of its line, CR LF or LF alone; the key is not empty and holds
  no colon, and neither key nor value holds a line feed. Its line is the key, a colon, the
  value and the line end.
\<close>

definition trailer_field :: "string \<times> string \<times> string \<Rightarrow> bool" where
  "trailer_field f =
     (case f of (k, v, e) \<Rightarrow>
        k \<noteq> [] \<and> CHR '':'' \<notin> set k \<and> LF \<notin> set k \<and> LF \<notin> set v \<and> (e = CRLF \<or> e = [LF]))"

definition trailer_lines :: "(string \<times> string \<times> string) list \<Rightarrow> string" where
  "trailer_lines fs = concat (map (\<lambda>(k, v, e). k @ '':'' @ v @ e) fs)"

text \<open>
  The calls \<open>c.header.Add(key, val)\<close> that readTrailers makes for a list of fields, in
  the order of the lines: \<open>key\<close> is the canonical form of the bytes before the colon
  (Add canonicalizes it once more), \<open>val\<close> the trimmed bytes after it.
\<close>

definition Add_all :: "CaseMapping \<Rightarrow> Header \<Rightarrow> (string \<times> string \<times> string) list \<Rightarrow> Header" where
  "Add_all To h fs = foldl (\<lambda>h (k, v, e). Add To h (CanonicalHeaderKey To k) (TrimSpace v)) h fs"

text \<open>
  What a header store is to hold under the map key \<open>K\<close> once the fields have been
  added to it: the values it held before, followed by the trimmed values of the fields
  stored under \<open>K\<close>, in the order of the lines; a key that no field is stored under
  is as it was, present or absent.
\<close>

definition trailer_values :: "CaseMapping \<Rightarrow> (string \<times> string \<times> string) list \<Rightarrow> string \<Rightarrow> string list" where
  "trailer_values To fs K =
     map (\<lambda>(k, v, e). TrimSpace v)
       (filter (\<lambda>(k, v, e). CanonicalHeaderKey To (CanonicalHeaderKey To k) = K) fs)"

definition with_trailers :: "CaseMapping \<Rightarrow> Header \<Rightarrow> (string \<times> string \<times> string) list
    \<Rightarrow> string \<Rightarrow> string list option" where
  "with_trailers To h fs K =
     (if trailer_values To fs K = [] then map_of h K
      else Some (header_at h K @ trailer_values To fs K))"

section \<open>Facts about the byte source\<close>

lemma src_Read_cases:
  obtains (eof) "pending s = []" "src_Read m s = (([], Some EOF), s)"
  | (data) k where "pending s \<noteq> []" "k \<le> m" "k \<le> length (pending s)" "0 < m \<Longrightarrow> 0 < k"
      "src_Read m s = ((take k (pending s), None), s\<lparr>pending := drop k (pending s), grants := tl (grants s)\<rparr>)"
proof (cases "pending s = []")
  case True
  then show ?thesis using eof by (simp add: src_Read_def)
next
  case False
  define g where "g = (case grants s of [] \<Rightarrow> length (pending s) | c # _ \<Rightarrow> max 1 c)"
  define k where "k = min m (min (length (pending s)) g)"
  from False have "0 < g" by (auto simp: g_def split: list.splits)
  with False have "0 < m \<Longrightarrow> 0 < k" by (simp add: k_def)
  moreover have "k \<le> m" "k \<le> length (pending s)" by (simp_all add: k_def)
  moreover from False have "src_Read m s = ((take k (pending s), None), s\<lparr>pending := drop k (pending s), grants := tl (grants s)\<rparr>)"
    by (simp add: src_Read_def Let_def g_def k_def)
  ultimately show ?thesis using data False by blast
qed

lemma src_Read_length:
  "src_Read m s = ((bs, err), s') \<Longrightarrow> length bs \<le> m \<and> (err = None \<or> err = Some EOF)"
  by (cases m s rule: src_Read_cases) auto

section \<open>Trimming, formatting and parsing integers\<close>

lemma parse_digits_append:
  "parse_digits b acc (xs @ ys) =
     (case parse_digits b acc xs of Inl e \<Rightarrow> Inl e | Inr v \<Rightarrow> parse_digits b v ys)"
  by (induction xs arbitrary: acc) (auto split: option.splits)

lemma digit_val_digit_char:
  assumes "0 \<le> d" and "d < 36"
  shows "digit_val (digit_char d) = Some d"
  using assms by (auto simp: digit_val_def digit_char_def Let_def)

lemma parse_format_digits:
  assumes "2 \<le> b" and "b \<le> 36" and "0 \<le> n" and "n < 2 ^ 64"
  shows "parse_digits b 0 (format_digits b n) = Inr n"
  using assms
proof (induction b n rule: format_digits.induct)
  case (1 b n)
  show ?case
  proof (cases "n < b")
    case True
    with "1.prems" show ?thesis
      by (subst format_digits.simps) (simp add: digit_val_digit_char)
  next
    case False
    with "1.prems" have "n div b < n" by (intro int_div_less_self) auto
    moreover from "1.prems" have "0 \<le> n div b" by (simp add: pos_imp_zdiv_nonneg_iff)
    ultimately have ih: "parse_digits b 0 (format_digits b (n div b)) = Inr (n div b)"
      using False "1.prems" by (intro "1.IH") auto
    have m: "0 \<le> n mod b" "n mod b < b" using "1.prems" by auto
    with "1.prems" have "n mod b < 36" by linarith
    with m have d: "digit_val (digit_char (n mod b)) = Some (n mod b)"
      by (intro digit_val_digit_char) auto
    have eq: "n div b * b + n mod b = n" by simp
    from m have nle: "\<not> b \<le> n mod b" by simp
    from False "1.prems" show ?thesis
      by (subst format_digits.simps) (simp add: parse_digits_append ih d nle eq)
  qed
qed

lemma space_rune_hd:
  "space_rune bs \<Longrightarrow> bs \<noteq> [] \<and> (of_char (hd bs) :: nat) \<in> {9, 10, 11, 12, 13, 32, 194, 225, 226, 227}"
  by (cases bs) (auto simp: space_rune_def)

lemma space_rune_last:
  "space_rune bs \<Longrightarrow> bs \<noteq> [] \<and> ((of_char (last bs) :: nat) \<in> {9, 10, 11, 12, 13, 32} \<or> 128 \<le> (of_char (last bs) :: nat))"
  by (cases bs rule: rev_cases) (auto simp: space_rune_def append_eq_Cons_conv)

lemma leading_space_none:
  assumes "s \<noteq> []" and "(of_char (hd s) :: nat) \<notin> {9, 10, 11, 12, 13, 32, 194, 225, 226, 227}"
  shows "leading_space s = 0"
proof -
  have "\<not> space_rune (take k s)" for k
  proof
    assume "space_rune (take k s)"
    from space_rune_hd [OF this] assms show False by (cases k; cases s) auto
  qed
  then show ?thesis by (simp add: leading_space_def)
qed

lemma trailing_space_none:
  assumes "s \<noteq> []" and "(of_char (last s) :: nat) \<notin> {9, 10, 11, 12, 13, 32}" and "(of_char (last s) :: nat) < 128"
  shows "trailing_space s = 0"
proof -
  have "\<not> space_rune (drop k s)" for k
  proof
    assume "space_rune (drop k s)"
    from space_rune_last [OF this] assms show False by auto
  qed
  then show ?thesis by (simp add: trailing_space_def)
qed

lemma trailing_space_one:
  assumes "(of_char c :: nat) \<in> {9, 10, 11, 12, 13, 32}"
  shows "trailing_space (s @ [c]) = 1"
  using assms by (auto simp: trailing_space_def space_rune_def)

lemma char_of_digit_low: "char_of (48 + int k) = (char_of (48 + k) :: char)"
proof -
  have "(48::int) + int k = int (48 + k)" by simp
  then show ?thesis by (simp only: char_of_nat)
qed
lemma char_of_digit_high: "char_of (87 + int k) = (char_of (87 + k) :: char)"
proof -
  have "(87::int) + int k = int (87 + k)" by simp
  then show ?thesis by (simp only: char_of_nat)
qed
lemma of_char_char_of_nat: "n < 256 \<Longrightarrow> (of_char (char_of (n::nat)) :: nat) = n"
  by (simp add: of_char_of)
lemma of_char_digit_char:
  assumes "0 \<le> d" and "d < 36"
  shows "(of_char (digit_char d) :: nat) \<in> {48..57} \<union> {97..122}"
proof -
  define k where "k = nat d"
  from assms have k: "d = int k" "k < 36" by (simp_all add: k_def)
  show ?thesis
  proof (cases "k < 10")
    case True
    then have "digit_char d = char_of (48 + k)" using k by (simp add: digit_char_def char_of_digit_low)
    moreover from True have "(of_char (char_of (48 + k)) :: nat) = 48 + k" by (intro of_char_char_of_nat) simp
    ultimately show ?thesis using True by simp
  next
    case False
    then have "digit_char d = char_of (87 + k)" using k by (simp add: digit_char_def char_of_digit_high)
    moreover from k have "(of_char (char_of (87 + k)) :: nat) = 87 + k" by (intro of_char_char_of_nat) simp
    ultimately show ?thesis using False k by simp
  qed
qed

lemma format_digits_chars:
  assumes "2 \<le> b" and "b \<le> 36" and "0 \<le> n"
  shows "format_digits b n \<noteq> [] \<and> (\<forall>c \<in> set (format_digits b n). (of_char c :: nat) \<in> {48..57} \<union> {97..122})"
  using assms
proof (induction b n rule: format_digits.induct)
  case (1 b n)
  show ?case
  proof (cases "n < b")
    case True
    then have eq: "format_digits b n = [digit_char n]"
      by (subst format_digits.simps) simp
    from True "1.prems" have "n < 36" by linarith
    with of_char_digit_char [of n] "1.prems" show ?thesis unfolding eq by simp
  next
    case False
    with "1.prems" have eq: "format_digits b n = format_digits b (n div b) @ [digit_char (n mod b)]"
      by (subst format_digits.simps) simp
    from "1.prems" have "0 \<le> n div b" by (simp add: pos_imp_zdiv_nonneg_iff)
    with False "1.prems" have ih: "\<forall>c \<in> set (format_digits b (n div b)). (of_char c :: nat) \<in> {48..57} \<union> {97..122}"
      using "1.IH" by auto
    from "1.prems" have "0 \<le> n mod b" "n mod b < b" by auto
    with "1.prems" have "0 \<le> n mod b" "n mod b < 36" by linarith+
    from of_char_digit_char [OF this] ih show ?thesis unfolding eq by simp
  qed
qed

lemma TrimSpace_size_line:
  assumes "s \<noteq> []" and "\<forall>c \<in> set s. (of_char c :: nat) \<in> {48..57} \<union> {97..122}"
  shows "TrimSpace (s @ CRLF) = s"
proof -
  from assms have h: "(of_char (hd s) :: nat) \<in> {48..57} \<union> {97..122}"
    and l: "(of_char (last s) :: nat) \<in> {48..57} \<union> {97..122}" by auto
  from assms(1) h have "leading_space (s @ CRLF) = 0"
    by (intro leading_space_none) auto
  then have left: "TrimLeftSpace (s @ CRLF) = s @ CRLF"
    by (subst TrimLeftSpace.simps) simp
  have t1: "trailing_space ((s @ [CR]) @ [LF]) = 1" by (rule trailing_space_one) simp
  have t2: "trailing_space (s @ [CR]) = 1" by (rule trailing_space_one) simp
  from assms(1) l have t3: "trailing_space s = 0" by (intro trailing_space_none) auto
  have "TrimRightSpace ((s @ [CR]) @ [LF]) = TrimRightSpace (s @ [CR])"
    by (subst TrimRightSpace.simps) (simp add: t1 del: append_assoc)
  also have "\<dots> = TrimRightSpace s"
    by (subst TrimRightSpace.simps) (simp add: t2)
  also have "\<dots> = s"
    by (subst TrimRightSpace.simps) (simp add: t3)
  finally show ?thesis by (simp add: TrimSpace_def left)
qed

lemma ParseInt_FormatInt:
  assumes "2 \<le> b" and "b \<le> 36" and "0 \<le> n" and "n < 2 ^ 63"
  shows "ParseInt (FormatInt n b) b = Inr n"
proof -
  from format_digits_chars [OF assms(1,2,3)] obtain c cs where
    cs: "format_digits b n = c # cs" and c: "(of_char c :: nat) \<in> {48..57} \<union> {97..122}"
    by (cases "format_digits b n") auto
  from c have sign: "c \<noteq> CHR ''+''" "c \<noteq> CHR ''-''" by auto
  from assms have "parse_digits b 0 (format_digits b n) = Inr n"
    by (intro parse_format_digits) auto
  with cs sign assms show ?thesis
    by (simp add: ParseInt_def FormatInt_def ParseUint_def)
qed

lemma space_rune_snoc_ascii:
  assumes "space_rune (bs @ [c])" and "(of_char c :: nat) < 128"
  shows "bs = []"
  using assms by (cases bs rule: rev_cases) (auto simp: space_rune_def append_eq_Cons_conv)

lemma leading_space_snoc:
  assumes "v \<noteq> []" and "(of_char c :: nat) < 128"
  shows "leading_space (v @ [c]) = leading_space v"
proof -
  have no: "\<not> space_rune (v @ [c])"
    using space_rune_snoc_ascii [OF _ assms(2)] assms(1) by blast
  consider (one) x where "v = [x]" | (two) x y where "v = [x, y]" | (more) "3 \<le> length v"
    using assms(1) by (cases v; cases "tl v"; cases "tl (tl v)") auto
  then show ?thesis
  proof cases
    case one
    with no show ?thesis by (simp add: leading_space_def)
  next
    case two
    with no show ?thesis by (simp add: leading_space_def)
  next
    case more
    then show ?thesis by (simp add: leading_space_def)
  qed
qed

lemma leading_space_le: "leading_space s \<le> length s"
proof -
  consider (none) "s = []" | (one) x where "s = [x]" | (two) x y where "s = [x, y]" | (more) "3 \<le> length s"
    by (cases s; cases "tl s"; cases "tl (tl s)") auto
  then show ?thesis
  proof cases
    case more
    have "leading_space s \<le> 3" by (simp add: leading_space_def)
    with more show ?thesis by simp
  qed (simp_all add: leading_space_def space_rune_Nil)
qed

lemma TrimLeftSpace_snoc:
  assumes "(of_char c :: nat) \<in> {9, 10, 11, 12, 13, 32}"
  shows "TrimLeftSpace (v @ [c]) = (if TrimLeftSpace v = [] then [] else TrimLeftSpace v @ [c])"
proof (induction v rule: TrimLeftSpace.induct)
  case (1 s)
  from assms have ascii: "(of_char c :: nat) < 128" by auto
  from assms have sp: "space_rune [c]" by (auto simp: space_rune_def)
  show ?case
  proof (cases "s = []")
    case True
    from sp have "leading_space [c] = 1" by (simp add: leading_space_def)
    then have "TrimLeftSpace [c] = TrimLeftSpace []" by (subst TrimLeftSpace.simps) simp
    also have "\<dots> = []" by (subst TrimLeftSpace.simps) (simp add: leading_space_Nil)
    finally show ?thesis using True by (subst (2) TrimLeftSpace.simps) (simp add: leading_space_Nil)
  next
    case False
    note ls = leading_space_snoc [OF False ascii]
    show ?thesis
    proof (cases "leading_space s = 0")
      case True
      with ls have "TrimLeftSpace (s @ [c]) = s @ [c]" by (subst TrimLeftSpace.simps) simp
      moreover from True have "TrimLeftSpace s = s" by (subst TrimLeftSpace.simps) simp
      ultimately show ?thesis using False by simp
    next
      case nz: False
      from leading_space_le [of s] have dr: "drop (leading_space s) (s @ [c]) = drop (leading_space s) s @ [c]"
        by simp
      from nz ls have "TrimLeftSpace (s @ [c]) = TrimLeftSpace (drop (leading_space s) s @ [c])"
        by (subst TrimLeftSpace.simps) (simp add: dr del: drop_append)
      moreover from nz have "TrimLeftSpace s = TrimLeftSpace (drop (leading_space s) s)"
        by (subst TrimLeftSpace.simps) simp
      ultimately show ?thesis using "1.IH" [OF nz] by simp
    qed
  qed
qed

lemma TrimSpace_snoc:
  assumes "(of_char c :: nat) \<in> {9, 10, 11, 12, 13, 32}"
  shows "TrimSpace (v @ [c]) = TrimSpace v"
proof (cases "TrimLeftSpace v = []")
  case True
  with TrimLeftSpace_snoc [OF assms, of v] show ?thesis by (simp add: TrimSpace_def)
next
  case False
  have "TrimRightSpace (TrimLeftSpace v @ [c]) = TrimRightSpace (TrimLeftSpace v)"
    by (subst TrimRightSpace.simps) (simp add: trailing_space_one [OF assms])
  with False TrimLeftSpace_snoc [OF assms, of v] show ?thesis by (simp add: TrimSpace_def)
qed

section \<open>Canonical header keys\<close>

text \<open>A key of ASCII bytes never reaches the case table.\<close>

lemma runes_ASCII:
  "\<forall>c \<in> set s. (of_char c :: int) < 0x80 \<Longrightarrow> runes s = map of_char s"
proof (induction s)
  case Nil
  show ?case by (subst runes.simps) simp
next
  case (Cons c s)
  then have "runes (c # s) = of_char c # runes s" by (subst runes.simps) simp
  with Cons show ?case by simp
qed

lemma canonical_part_ASCII:
  assumes "\<forall>c \<in> set p. (of_char c :: int) < 0x80"
  shows "canonical_part To p = canonical_part unmapped p"
proof (cases p)
  case Nil
  then show ?thesis by (simp add: canonical_part_def)
next
  case (Cons x xs)
  from assms Cons have x: "(of_char x :: int) \<le> 0x7F"
    and xs: "\<forall>c \<in> set xs. (of_char c :: int) \<le> 0x7F" by auto
  from runes_ASCII [OF assms] Cons have r: "runes (x # xs) = of_char x # map of_char xs" by simp
  have part: "canonical_part T p
      = string_of_runes (unicode_ToUpper T (of_char x) # map (\<lambda>c. unicode_ToLower T (of_char c)) xs)" for T
    using Cons by (simp add: canonical_part_def r comp_def)
  from xs have "map (\<lambda>c. unicode_ToLower To (of_char c)) xs = map (\<lambda>c. unicode_ToLower unmapped (of_char c)) xs"
    by (simp add: unicode_ToLower_def)
  moreover from x have "unicode_ToUpper To (of_char x) = unicode_ToUpper unmapped (of_char x)"
    by (simp add: unicode_ToUpper_def)
  ultimately show ?thesis by (simp only: part)
qed

lemma Split_concat: "set (concat (Split s sep)) \<subseteq> set s"
proof (induction s)
  case Nil
  show ?case by simp
next
  case (Cons x xs)
  then show ?case by (cases "Split xs sep") (fastforce split: if_splits)+
qed

lemma CanonicalHeaderKey_ASCII:
  assumes "\<forall>c \<in> set s. (of_char c :: int) < 0x80"
  shows "CanonicalHeaderKey To s = CanonicalHeaderKey unmapped s"
proof -
  have "canonical_part To p = canonical_part unmapped p" if "p \<in> set (Split s (CHR ''-''))" for p
  proof (rule canonical_part_ASCII)
    from that have "set p \<subseteq> set (concat (Split s (CHR ''-'')))" by auto
    with Split_concat [of s "CHR ''-''"] assms show "\<forall>c \<in> set p. (of_char c :: int) < 0x80" by blast
  qed
  then have eq: "map (canonical_part To) (Split s (CHR ''-'')) = map (canonical_part unmapped) (Split s (CHR ''-''))"
    by simp
  show ?thesis unfolding CanonicalHeaderKey_def eq by (rule refl)
qed

section \<open>Cancellation\<close>

text \<open>
  Claim C9. With a context that is already done, Read of the fixed-length, the chunked
  and the close-delimited reader returns no bytes and the context's error and leaves the
  reader, and with it the source, as it was; WriteResponse returns the context's error
  and the sink has received nothing.
\<close>

theorem cancelled_before_any_io:
  "fixedReader_Read lenp (f\<lparr>fr_ctx := Some e\<rparr>) = (([], Some e), f\<lparr>fr_ctx := Some e\<rparr>)
   \<and> chunkedReader_Read To lenp (c\<lparr>cr_ctx := Some e\<rparr>) = (([], Some e), c\<lparr>cr_ctx := Some e\<rparr>)
   \<and> closeReader_Read lenp (u\<lparr>cl_ctx := Some e\<rparr>) = (([], Some e), u\<lparr>cl_ctx := Some e\<rparr>)
   \<and> WriteResponse To (Some e) w resp = (Some e, w)"
  by (simp add: fixedReader_Read_def chunkedReader_Read_def closeReader_Read_def WriteResponse_def)

section \<open>Selection of the body reader\<close>

lemma TrimSpace_digits:
  assumes "s \<noteq> []" and "\<forall>c \<in> set s. (of_char c :: nat) \<in> {48..57} \<union> {97..122}"
  shows "TrimSpace s = s"
proof -
  from assms have h: "(of_char (hd s) :: nat) \<in> {48..57} \<union> {97..122}"
    and l: "(of_char (last s) :: nat) \<in> {48..57} \<union> {97..122}" by auto
  from assms(1) h have "leading_space s = 0" by (intro leading_space_none) auto
  then have left: "TrimLeftSpace s = s" by (subst TrimLeftSpace.simps) simp
  from assms(1) l have "trailing_space s = 0" by (intro trailing_space_none) auto
  then have "TrimRightSpace s = s" by (subst TrimRightSpace.simps) simp
  with left show ?thesis by (simp add: TrimSpace_def)
qed

lemma ParseInt_TrimSpace_Itoa:
  assumes "0 \<le> n" and "n < 2 ^ 63"
  shows "Itoa n \<noteq> [] \<and> ParseInt (TrimSpace (Itoa n)) 10 = Inr n"
proof -
  from assms(1) have fd: "Itoa n = format_digits 10 n" by (simp add: Itoa_def FormatInt_def)
  from format_digits_chars [of 10 n] assms(1) fd have
    ne: "Itoa n \<noteq> []" and chars: "\<forall>c \<in> set (Itoa n). (of_char c :: nat) \<in> {48..57} \<union> {97..122}"
    by auto
  from ParseInt_FormatInt [of 10 n] assms have "ParseInt (Itoa n) 10 = Inr n" by (simp add: Itoa_def)
  with TrimSpace_digits [OF ne chars] ne show ?thesis by simp
qed

text \<open>
  Claim C5, as amended. When Transfer-Encoding does not fold to chunked and the first
  Content-Length value is not empty, NewBodyReader fails with ErrLengthMismatch when the
  trimmed value does not parse as a base-10 integer or is negative, fails with
  ErrBodyTooLarge when a positive maxSize is exceeded, and otherwise returns a
  fixedReader over the untouched source whose remaining count is the parsed value,
  together with that value. In particular, when the value is the decimal form of an
  integer n with 0 \<le> n < 2^63, the result is ErrBodyTooLarge if a positive maxSize is
  below n, and the fixedReader for exactly n bytes otherwise.
\<close>

theorem NewBodyReader_Content_Length:
  assumes "\<not> EqualFold (Get To h ''Transfer-Encoding'') ''chunked''"
    and "Get To h ''Content-Length'' = cl" and "cl \<noteq> []"
  shows "NewBodyReader To ctx h r maxSize =
           (case ParseInt (TrimSpace cl) 10 of
              Inl e \<Rightarrow> Inl ErrLengthMismatch
            | Inr n \<Rightarrow>
                if n < 0 then Inl ErrLengthMismatch
                else if maxSize > 0 \<and> n > maxSize then Inl ErrBodyTooLarge
                else Inr (Fixed \<lparr>fr_ctx = ctx, fr_r = r, fr_n = n, fr_limit = maxSize, fr_readTotal = 0\<rparr>, n))
       \<and> (\<forall>n. 0 \<le> n \<and> n < 2 ^ 63 \<and> cl = Itoa n \<longrightarrow>
             NewBodyReader To ctx h r maxSize =
               (if maxSize > 0 \<and> n > maxSize then Inl ErrBodyTooLarge
                else Inr (Fixed \<lparr>fr_ctx = ctx, fr_r = r, fr_n = n, fr_limit = maxSize, fr_readTotal = 0\<rparr>, n)))"
proof -
  from assms have gen: "NewBodyReader To ctx h r maxSize =
           (case ParseInt (TrimSpace cl) 10 of
              Inl e \<Rightarrow> Inl ErrLengthMismatch
            | Inr n \<Rightarrow>
                if n < 0 then Inl ErrLengthMismatch
                else if maxSize > 0 \<and> n > maxSize then Inl ErrBodyTooLarge
                else Inr (Fixed \<lparr>fr_ctx = ctx, fr_r = r, fr_n = n, fr_limit = maxSize, fr_readTotal = 0\<rparr>, n))"
    by (simp add: NewBodyReader_def newFixedReader_def Let_def split: sum.splits)
  moreover have "NewBodyReader To ctx h r maxSize =
               (if maxSize > 0 \<and> n > maxSize then Inl ErrBodyTooLarge
                else Inr (Fixed \<lparr>fr_ctx = ctx, fr_r = r, fr_n = n, fr_limit = maxSize, fr_readTotal = 0\<rparr>, n))"
    if "0 \<le> n" "n < 2 ^ 63" "cl = Itoa n" for n
    using gen ParseInt_TrimSpace_Itoa [OF that(1,2)] that by simp
  ultimately show ?thesis by blast
qed

theorem NewBodyReader_Content_Length_witness:
  "\<not> EqualFold (Get unmapped [(''Content-Length'', [''12''])] ''Transfer-Encoding'') ''chunked''
   \<and> Get unmapped [(''Content-Length'', [''12''])] ''Content-Length'' = Itoa 12
   \<and> NewBodyReader unmapped None [(''Content-Length'', [''12''])] \<lparr>pending = ''hello world!'', grants = []\<rparr> 100
       = Inr (Fixed \<lparr>fr_ctx = None, fr_r = \<lparr>pending = ''hello world!'', grants = []\<rparr>, fr_n = 12,
                     fr_limit = 100, fr_readTotal = 0\<rparr>, 12)
   \<and> NewBodyReader unmapped None [(''Content-Length'', [''12''])] \<lparr>pending = ''hello world!'', grants = []\<rparr> 5
       = Inl ErrBodyTooLarge
   \<and> \<not> EqualFold (Get unmapped [(''Content-Length'', [''12x''])] ''Transfer-Encoding'') ''chunked''
   \<and> Get unmapped [(''Content-Length'', [''12x''])] ''Content-Length'' = ''12x''
   \<and> NewBodyReader unmapped None [(''Content-Length'', [''12x''])] \<lparr>pending = ''hello world!'', grants = []\<rparr> 100
       = Inl ErrLengthMismatch"
proof -
  let ?h = "[(''Content-Length'', [''12''])]"
  let ?g = "[(''Content-Length'', [''12x''])]"
  let ?src = "\<lparr>pending = ''hello world!'', grants = []\<rparr>"
  have a: "\<not> EqualFold (Get unmapped ?h ''Transfer-Encoding'') ''chunked''" by code_simp
  have b: "Get unmapped ?h ''Content-Length'' = Itoa 12" by code_simp
  have c: "Itoa 12 \<noteq> []" by code_simp
  have a': "\<not> EqualFold (Get unmapped ?g ''Transfer-Encoding'') ''chunked''" by code_simp
  have b': "Get unmapped ?g ''Content-Length'' = ''12x''" by code_simp
  have c': "ParseInt (TrimSpace ''12x'') 10 = Inl ErrSyntax" by code_simp
  from NewBodyReader_Content_Length [OF a b c, of None ?src 100, THEN conjunct2, rule_format, of 12]
  have r1: "NewBodyReader unmapped None ?h ?src 100
       = Inr (Fixed \<lparr>fr_ctx = None, fr_r = ?src, fr_n = 12, fr_limit = 100, fr_readTotal = 0\<rparr>, 12)"
    by simp
  from NewBodyReader_Content_Length [OF a b c, of None ?src 5, THEN conjunct2, rule_format, of 12]
  have r2: "NewBodyReader unmapped None ?h ?src 5 = Inl ErrBodyTooLarge" by simp
  from NewBodyReader_Content_Length [OF a' b', of None ?src 100, THEN conjunct1] c'
  have r3: "NewBodyReader unmapped None ?g ?src 100 = Inl ErrLengthMismatch" by simp
  from a b a' b' r1 r2 r3 show ?thesis by blast
qed

text \<open>
  The claim as it was stated fails for a Content-Length entry whose value is empty: the
  value does not parse, but the entry counts as absent and the close-delimited reader is
  returned.
\<close>

theorem NewBodyReader_empty_Content_Length_counterexample:
  "map_of [(''Content-Length'', [[]])] ''Content-Length'' = Some [[] :: string]
   \<and> \<not> EqualFold (Get unmapped [(''Content-Length'', [[]])] ''Transfer-Encoding'') ''chunked''
   \<and> ParseInt (TrimSpace []) 10 = Inl ErrSyntax
   \<and> NewBodyReader unmapped None [(''Content-Length'', [[]])] \<lparr>pending = ''abc'', grants = []\<rparr> 0
       = Inr (UntilClose \<lparr>cl_ctx = None, cl_r = \<lparr>pending = ''abc'', grants = []\<rparr>,
                          cl_limit = 0, cl_readTotal = 0\<rparr>, - 1)"
  by code_simp

section \<open>The fixed-length reader\<close>

lemma fixedReader_Read_within_limit:
  assumes inv: "0 \<le> fr_n f" "0 < fr_limit f \<longrightarrow> fr_readTotal f + fr_n f \<le> fr_limit f"
      "fr_ctx f \<noteq> Some ErrBodyTooLarge"
    and rd: "fixedReader_Read lenp f = ((bs, err), f')"
  shows "0 \<le> fr_n f' \<and> (0 < fr_limit f' \<longrightarrow> fr_readTotal f' + fr_n f' \<le> fr_limit f')
         \<and> fr_limit f' = fr_limit f \<and> fr_ctx f' = fr_ctx f \<and> err \<noteq> Some ErrBodyTooLarge"
proof (cases "fr_ctx f = None \<and> 0 < fr_n f")
  case False
  with rd inv show ?thesis
    by (auto simp: fixedReader_Read_def split: option.splits if_splits)
next
  case True
  define m where "m = (if int lenp > fr_n f then nat (fr_n f) else lenp)"
  have m: "int m \<le> fr_n f" using True by (simp add: m_def)
  show ?thesis
  proof (cases m "fr_r f" rule: src_Read_cases)
    case eof
    with rd True inv show ?thesis
      by (auto simp: fixedReader_Read_def m_def [symmetric] Let_def split: if_splits)
  next
    case (data k)
    then have "int (length (take k (pending (fr_r f)))) \<le> fr_n f" using m by simp
    with data rd True inv show ?thesis
      by (auto simp: fixedReader_Read_def m_def [symmetric] Let_def split: if_splits)
  qed
qed

lemma Read_calls_fixed_within_limit:
  assumes "0 \<le> fr_n f" "0 < fr_limit f \<longrightarrow> fr_readTotal f + fr_n f \<le> fr_limit f"
    "fr_ctx f \<noteq> Some ErrBodyTooLarge"
  shows "(\<forall>res \<in> set (fst (Read_calls fixedReader_Read ps f)). snd res \<noteq> Some ErrBodyTooLarge)
         \<and> (0 < fr_limit f \<longrightarrow> fr_readTotal (snd (Read_calls fixedReader_Read ps f)) \<le> fr_limit f)"
  using assms
proof (induction ps arbitrary: f)
  case Nil
  then show ?case by auto
next
  case (Cons lenp ps)
  obtain bs err f' where rd: "fixedReader_Read lenp f = ((bs, err), f')"
    by (metis surj_pair)
  from fixedReader_Read_within_limit [OF Cons.prems rd]
  have inv': "0 \<le> fr_n f'" "0 < fr_limit f' \<longrightarrow> fr_readTotal f' + fr_n f' \<le> fr_limit f'"
    "fr_ctx f' \<noteq> Some ErrBodyTooLarge"
    "fr_limit f' = fr_limit f" "err \<noteq> Some ErrBodyTooLarge" using Cons.prems(3) by auto
  from Cons.IH [OF inv'(1,2,3)] inv'(4,5) rd show ?case
    by (auto split: prod.splits)
qed

text \<open>
  Claim C10. For a fixedReader that NewBodyReader has returned, no Read call of any
  sequence of calls returns ErrBodyTooLarge, and under a positive maxSize the cumulative
  count of bytes read never exceeds it. (The context's own error is whatever the context
  reports; a context does not report ErrBodyTooLarge.)
\<close>

theorem fixedReader_never_BodyTooLarge:
  assumes "NewBodyReader To ctx h r maxSize = Inr (Fixed f, n)"
    and "ctx \<noteq> Some ErrBodyTooLarge"
  shows "(\<forall>res \<in> set (fst (Read_calls fixedReader_Read ps f)). snd res \<noteq> Some ErrBodyTooLarge)
         \<and> (0 < maxSize \<longrightarrow> fr_readTotal (snd (Read_calls fixedReader_Read ps f)) \<le> maxSize)"
proof -
  from assms have "0 \<le> fr_n f" "0 < fr_limit f \<longrightarrow> fr_readTotal f + fr_n f \<le> fr_limit f"
    "fr_ctx f \<noteq> Some ErrBodyTooLarge" "fr_limit f = maxSize"
    by (auto simp: NewBodyReader_def newFixedReader_def newChunkedReader_def newCloseReader_def Let_def
        split: if_splits sum.splits)
  with Read_calls_fixed_within_limit [of f ps] show ?thesis by simp
qed

theorem fixedReader_never_BodyTooLarge_witness:
  "NewBodyReader unmapped None [(''Content-Length'', [''3''])] \<lparr>pending = ''abcde'', grants = []\<rparr> 3
     = Inr (Fixed \<lparr>fr_ctx = None, fr_r = \<lparr>pending = ''abcde'', grants = []\<rparr>, fr_n = 3,
                   fr_limit = 3, fr_readTotal = 0\<rparr>, 3)
   \<and> (0::int) < 3
   \<and> (None :: Context) \<noteq> Some ErrBodyTooLarge
   \<and> fst (Read_calls fixedReader_Read [2, 2, 2]
        \<lparr>fr_ctx = None, fr_r = \<lparr>pending = ''abcde'', grants = []\<rparr>, fr_n = 3,
         fr_limit = 3, fr_readTotal = 0\<rparr>)
      = [(''ab'', None), (''c'', Some EOF), ([], Some EOF)]
   \<and> fr_readTotal (snd (Read_calls fixedReader_Read [2, 2, 2]
        \<lparr>fr_ctx = None, fr_r = \<lparr>pending = ''abcde'', grants = []\<rparr>, fr_n = 3,
         fr_limit = 3, fr_readTotal = 0\<rparr>)) \<le> 3"
proof -
  let ?f = "\<lparr>fr_ctx = None, fr_r = \<lparr>pending = ''abcde'', grants = []\<rparr>, fr_n = 3,
         fr_limit = 3, fr_readTotal = 0\<rparr>"
  have a: "NewBodyReader unmapped None [(''Content-Length'', [''3''])] \<lparr>pending = ''abcde'', grants = []\<rparr> 3
     = Inr (Fixed ?f, 3)" by code_simp
  have b: "(0::int) < 3" by simp
  have c: "fst (Read_calls fixedReader_Read [2, 2, 2] ?f) = [(''ab'', None), (''c'', Some EOF), ([], Some EOF)]"
    by code_simp
  have d: "(None :: Context) \<noteq> Some ErrBodyTooLarge" by simp
  from fixedReader_never_BodyTooLarge [OF a d, of "[2, 2, 2]"] a b c show ?thesis by simp
qed

subsection \<open>Draining a fixed-length body\<close>

lemma fixedReader_Read_unfold:
  assumes "fr_ctx f = None" and "0 < fr_n f"
    and "src_Read (if int lenp > fr_n f then nat (fr_n f) else lenp) (fr_r f) = ((bs, err), r')"
  shows "fixedReader_Read lenp f =
     (let f' = f\<lparr>fr_r := r', fr_n := fr_n f - int (length bs),
                    fr_readTotal := fr_readTotal f + int (length bs)\<rparr>
      in if fr_limit f' > 0 \<and> fr_readTotal f' > fr_limit f' then ((bs, Some ErrBodyTooLarge), f')
         else if err = Some EOF \<and> fr_n f' > 0 then ((bs, Some ErrLengthMismatch), f')
         else if fr_n f' = 0 then ((bs, Some EOF), f')
         else ((bs, err), f'))"
  using assms by (simp add: fixedReader_Read_def Let_def)

lemma fixedReader_ReadAll:
  assumes "fr_ctx f = None" and "0 \<le> fr_n f"
    and "fr_limit f \<le> 0 \<or> fr_readTotal f + fr_n f \<le> fr_limit f"
    and "\<forall>p \<in> set ps. 0 < p" and "length (pending (fr_r f)) < length ps"
  shows "\<exists>f'. ReadAll fixedReader_Read ps f =
            Some ((take (nat (fr_n f)) (pending (fr_r f)),
                   if int (length (pending (fr_r f))) < fr_n f then Some ErrLengthMismatch else None), f')
          \<and> (fr_n f \<le> int (length (pending (fr_r f))) \<longrightarrow> fr_ctx f' = None \<and> fr_n f' = 0)"
  using assms
proof (induction ps arbitrary: f)
  case Nil
  then show ?case by simp
next
  case (Cons p ps)
  show ?case
  proof (cases "fr_n f = 0")
    case True
    with Cons.prems show ?thesis by (simp add: fixedReader_Read_def)
  next
    case False
    with Cons.prems have npos: "0 < fr_n f" by simp
    from Cons.prems have ppos: "0 < p" by simp
    define m where "m = (if int p > fr_n f then nat (fr_n f) else p)"
    have m: "int m \<le> fr_n f" "0 < m" using npos ppos by (auto simp: m_def)
    show ?thesis
    proof (cases m "fr_r f" rule: src_Read_cases)
      case eof
      note step = fixedReader_Read_unfold [OF Cons.prems(1) npos eof(2) [unfolded m_def]]
      from eof(1) Cons.prems npos show ?thesis
        by (auto simp: step Let_def)
    next
      case (data k)
      let ?bs = "take k (pending (fr_r f))"
      let ?f' = "f\<lparr>fr_r := (fr_r f)\<lparr>pending := drop k (pending (fr_r f)), grants := tl (grants (fr_r f))\<rparr>,
                    fr_n := fr_n f - int k, fr_readTotal := fr_readTotal f + int k\<rparr>"
      from data m have k: "0 < k" "int k \<le> fr_n f" "k \<le> length (pending (fr_r f))" by auto
      then have len: "length ?bs = k" by simp
      note step = fixedReader_Read_unfold [OF Cons.prems(1) npos data(5) [unfolded m_def]]
      show ?thesis
      proof (cases "fr_n f = int k")
        case True
        with k len Cons.prems npos have
          "fixedReader_Read p f = ((?bs, Some EOF), ?f')"
          by (auto simp: step Let_def)
        with True k Cons.prems(1) show ?thesis by simp
      next
        case False
        with k len Cons.prems npos have rd:
          "fixedReader_Read p f = ((?bs, None), ?f')"
          by (auto simp: step Let_def)
        have "\<exists>f''. ReadAll fixedReader_Read ps ?f' =
            Some ((take (nat (fr_n ?f')) (pending (fr_r ?f')),
                   if int (length (pending (fr_r ?f'))) < fr_n ?f' then Some ErrLengthMismatch else None), f'')
          \<and> (fr_n ?f' \<le> int (length (pending (fr_r ?f'))) \<longrightarrow> fr_ctx f'' = None \<and> fr_n f'' = 0)"
          using Cons.prems k False by (intro Cons.IH) auto
        then obtain f'' where ih: "ReadAll fixedReader_Read ps ?f' =
            Some ((take (nat (fr_n f - int k)) (drop k (pending (fr_r f))),
                   if int (length (pending (fr_r f)) - k) < fr_n f - int k then Some ErrLengthMismatch else None), f'')"
          and fin: "fr_n f - int k \<le> int (length (pending (fr_r f)) - k) \<longrightarrow> fr_ctx f'' = None \<and> fr_n f'' = 0"
          by auto
        have "nat (fr_n f) = k + nat (fr_n f - int k)" using k by simp
        then have cat: "?bs @ take (nat (fr_n f - int k)) (drop k (pending (fr_r f))) = take (nat (fr_n f)) (pending (fr_r f))"
          by (simp add: take_add)
        from k have flag: "int (length (pending (fr_r f)) - k) < fr_n f - int k \<longleftrightarrow> int (length (pending (fr_r f))) < fr_n f"
          by auto
        from rd ih cat flag fin k show ?thesis by auto
      qed
    qed
  qed
qed

lemma fixedReader_Read_at_end:
  "fr_ctx f = None \<Longrightarrow> fr_n f = 0 \<Longrightarrow> fixedReader_Read lenp f = (([], Some EOF), f)"
  by (simp add: fixedReader_Read_def)

text \<open>
  Claim C4. A fixedReader with declared count \<open>N\<close> (within the cap, if there is one)
  over a source that holds exactly \<open>N\<close> bytes yields exactly those bytes and a normal
  end of stream, whatever the positive sizes of the consumer's buffers and however the
  source splits its reads, and every later Read returns no bytes and io.EOF and leaves the
  reader as it is. Over a source that holds fewer than \<open>N\<close> bytes it yields the
  bytes present and fails with ErrLengthMismatch. One Read call per byte and one more
  always suffice.
\<close>

theorem fixedReader_exact_or_LengthMismatch:
  assumes "\<forall>p \<in> set ps. 0 < p" and "length body < length ps"
    and "int (length body) \<le> N" and "limit \<le> 0 \<or> N \<le> limit"
  shows "\<exists>f'. ReadAll fixedReader_Read ps (newFixedReader None \<lparr>pending = body, grants = g\<rparr> N limit)
            = Some ((body, if int (length body) < N then Some ErrLengthMismatch else None), f')
          \<and> (int (length body) = N \<longrightarrow> (\<forall>lenp. fixedReader_Read lenp f' = (([], Some EOF), f')))"
proof -
  let ?f = "newFixedReader None \<lparr>pending = body, grants = g\<rparr> N limit"
  from assms have "\<exists>f'. ReadAll fixedReader_Read ps ?f =
            Some ((take (nat (fr_n ?f)) (pending (fr_r ?f)),
                   if int (length (pending (fr_r ?f))) < fr_n ?f then Some ErrLengthMismatch else None), f')
          \<and> (fr_n ?f \<le> int (length (pending (fr_r ?f))) \<longrightarrow> fr_ctx f' = None \<and> fr_n f' = 0)"
    by (intro fixedReader_ReadAll) (auto simp: newFixedReader_def)
  then obtain f' where r: "ReadAll fixedReader_Read ps ?f =
            Some ((take (nat N) body, if int (length body) < N then Some ErrLengthMismatch else None), f')"
    and fin: "N \<le> int (length body) \<longrightarrow> fr_ctx f' = None \<and> fr_n f' = 0"
    by (auto simp: newFixedReader_def)
  from assms(3) have "take (nat N) body = body" by simp
  with r fin fixedReader_Read_at_end [of f'] show ?thesis by auto
qed

theorem fixedReader_exact_or_LengthMismatch_witness:
  "ReadAll fixedReader_Read [4, 4, 4, 4, 4, 4, 4, 4, 4, 4, 4, 4]
       (newFixedReader None \<lparr>pending = ''hello world'', grants = [3, 0]\<rparr> 11 0)
     = Some ((''hello world'', None),
             \<lparr>fr_ctx = None, fr_r = \<lparr>pending = [], grants = []\<rparr>, fr_n = 0, fr_limit = 0, fr_readTotal = 11\<rparr>)
   \<and> fixedReader_Read 1
        \<lparr>fr_ctx = None, fr_r = \<lparr>pending = [], grants = []\<rparr>, fr_n = 0, fr_limit = 0, fr_readTotal = 11\<rparr>
     = (([], Some EOF),
        \<lparr>fr_ctx = None, fr_r = \<lparr>pending = [], grants = []\<rparr>, fr_n = 0, fr_limit = 0, fr_readTotal = 11\<rparr>)
   \<and> ReadAll fixedReader_Read [4, 4, 4, 4]
       (newFixedReader None \<lparr>pending = ''abc'', grants = []\<rparr> 5 0)
     = Some ((''abc'', Some ErrLengthMismatch),
             \<lparr>fr_ctx = None, fr_r = \<lparr>pending = [], grants = []\<rparr>, fr_n = 2, fr_limit = 0, fr_readTotal = 3\<rparr>)"
proof -
  let ?ps = "[4, 4, 4, 4, 4, 4, 4, 4, 4, 4, 4, 4] :: nat list"
  have a: "\<forall>p \<in> set ?ps. 0 < p" by simp
  have b: "length ''hello world'' < length ?ps" by simp
  have c: "int (length ''hello world'') \<le> 11" "(0::int) \<le> 0 \<or> (11::int) \<le> 0" by simp_all
  have a': "\<forall>p \<in> set [4, 4, 4, 4 :: nat]. 0 < p" by simp
  have b': "length ''abc'' < length [4, 4, 4, 4 :: nat]" by simp
  have c': "int (length ''abc'') \<le> 5" "(0::int) \<le> 0 \<or> (5::int) \<le> 0" by simp_all
  have e1: "ReadAll fixedReader_Read ?ps (newFixedReader None \<lparr>pending = ''hello world'', grants = [3, 0]\<rparr> 11 0)
     = Some ((''hello world'', None),
             \<lparr>fr_ctx = None, fr_r = \<lparr>pending = [], grants = []\<rparr>, fr_n = 0, fr_limit = 0, fr_readTotal = 11\<rparr>)"
    by code_simp
  have e2: "ReadAll fixedReader_Read [4, 4, 4, 4]
       (newFixedReader None \<lparr>pending = ''abc'', grants = []\<rparr> 5 0)
     = Some ((''abc'', Some ErrLengthMismatch),
             \<lparr>fr_ctx = None, fr_r = \<lparr>pending = [], grants = []\<rparr>, fr_n = 2, fr_limit = 0, fr_readTotal = 3\<rparr>)"
    by code_simp
  from fixedReader_exact_or_LengthMismatch [OF a b c, of "[3, 0]"]
       fixedReader_exact_or_LengthMismatch [OF a' b' c', of "[]"] e1 e2
  show ?thesis by auto
qed

section \<open>The close-delimited reader\<close>

text \<open>
  Under a positive cap the count of bytes read never passes the cap, so no Read of the
  close-delimited reader returns ErrBodyTooLarge.
\<close>

lemma closeReader_Read_within_cap:
  assumes "0 < cl_limit c" and "cl_readTotal c \<le> cl_limit c" and "cl_ctx c \<noteq> Some ErrBodyTooLarge"
    and rd: "closeReader_Read lenp c = ((bs, err), c')"
  shows "cl_readTotal c' \<le> cl_limit c' \<and> cl_limit c' = cl_limit c \<and> cl_ctx c' = cl_ctx c
         \<and> err \<noteq> Some ErrBodyTooLarge"
proof (cases "cl_ctx c = None \<and> 0 < cl_limit c - cl_readTotal c")
  case False
  with rd assms(1,2,3) show ?thesis
    by (auto simp: closeReader_Read_def split: option.splits if_splits)
next
  case True
  show ?thesis
  proof (cases "int lenp > cl_limit c - cl_readTotal c")
    case capped: True
    obtain bs0 e0 r0 where sr: "src_Read (nat (cl_limit c - cl_readTotal c)) (cl_r c) = ((bs0, e0), r0)"
      by (metis surj_pair)
    from src_Read_length [OF sr] True have "int (length bs0) \<le> cl_limit c - cl_readTotal c"
      and "e0 \<noteq> Some ErrBodyTooLarge" by auto
    with rd True capped assms(1) sr show ?thesis
      by (auto simp: closeReader_Read_def Let_def split: if_splits)
  next
    case False
    obtain bs0 e0 r0 where sr: "src_Read lenp (cl_r c) = ((bs0, e0), r0)"
      by (metis surj_pair)
    from src_Read_length [OF sr] False have "int (length bs0) \<le> cl_limit c - cl_readTotal c"
      and "e0 \<noteq> Some ErrBodyTooLarge" by auto
    with rd True False assms(1) sr show ?thesis
      by (auto simp: closeReader_Read_def Let_def split: if_splits)
  qed
qed

text \<open>
  Claim C1, evaluated on the code. With a cap of 2 and a body of 3 bytes the reader
  delivers the first 2 bytes and then reports a normal end of stream: the third byte
  stays in the source and ErrBodyTooLarge is not returned. A body of exactly 2 bytes is
  delivered fully and ends with a normal end of stream.
\<close>

theorem closeReader_truncates_at_cap:
  "ReadAll closeReader_Read [512, 512] (newCloseReader None \<lparr>pending = ''abc'', grants = []\<rparr> 2)
     = Some ((''ab'', None),
             \<lparr>cl_ctx = None, cl_r = \<lparr>pending = ''c'', grants = []\<rparr>, cl_limit = 2, cl_readTotal = 2\<rparr>)
   \<and> ReadAll closeReader_Read [512, 512] (newCloseReader None \<lparr>pending = ''ab'', grants = []\<rparr> 2)
     = Some ((''ab'', None),
             \<lparr>cl_ctx = None, cl_r = \<lparr>pending = [], grants = []\<rparr>, cl_limit = 2, cl_readTotal = 2\<rparr>)"
  by code_simp

section \<open>ReadLine\<close>

lemma raw_line_split:
  assumes "LF \<notin> set c"
  shows "raw_line (c @ LF # rest) = c @ [LF]"
  using assms by (auto simp: raw_line_def takeWhile_tail)

lemma raw_line_prefix: "\<exists>rest. p = raw_line p @ rest"
proof (cases "LF \<in> set p")
  case True
  then obtain ys zs where "p = ys @ LF # zs" "LF \<notin> set ys" by (meson split_list_first)
  then show ?thesis using raw_line_split [of ys zs] by auto
next
  case False
  then show ?thesis by (simp add: raw_line_def)
qed

lemma raw_line_skip:
  assumes "LF \<notin> set (take n p)"
  shows "raw_line p = take n p @ raw_line (drop n p)"
proof (cases "LF \<in> set (drop n p)")
  case True
  then obtain ys zs where d: "drop n p = ys @ LF # zs" "LF \<notin> set ys" by (meson split_list_first)
  then have "p = (take n p @ ys) @ LF # zs" by (metis append_take_drop_id append_assoc)
  moreover from assms d have "LF \<notin> set (take n p @ ys)" by simp
  ultimately have "raw_line p = (take n p @ ys) @ [LF]" by (metis raw_line_split)
  with d raw_line_split [of ys zs] show ?thesis by simp
next
  case False
  with assms have "LF \<notin> set (take n p) \<union> set (drop n p)" by simp
  then have "LF \<notin> set (take n p @ drop n p)" unfolding set_append .
  then have "LF \<notin> set p" by simp
  with False show ?thesis by (simp add: raw_line_def)
qed

lemma ReadSlice_line:
  assumes "LF \<in> set (take DefaultBufSize (pending s))"
  shows "ReadSlice s = ((raw_line (pending s), None),
                        s\<lparr>pending := drop (length (raw_line (pending s))) (pending s)\<rparr>)"
proof -
  from assms obtain ys zs where t: "take DefaultBufSize (pending s) = ys @ LF # zs" "LF \<notin> set ys"
    by (meson split_list_first)
  then have "pending s = ys @ LF # (zs @ drop DefaultBufSize (pending s))"
    by (metis append_take_drop_id append_assoc append_Cons)
  with t have "raw_line (pending s) = ys @ [LF]" by (metis raw_line_split)
  moreover from t have "takeWhile (\<lambda>c. c \<noteq> LF) (take DefaultBufSize (pending s)) = ys"
    by (auto simp: takeWhile_tail)
  ultimately show ?thesis using assms by (simp add: ReadSlice_def Let_def)
qed

lemma ReadSlice_full:
  assumes "LF \<notin> set (take DefaultBufSize (pending s))" and "DefaultBufSize \<le> length (pending s)"
  shows "ReadSlice s = ((take DefaultBufSize (pending s), Some ErrBufferFull),
                        s\<lparr>pending := drop DefaultBufSize (pending s)\<rparr>)"
  using assms by (simp add: ReadSlice_def Let_def)

lemma ReadSlice_rest:
  assumes "LF \<notin> set (take DefaultBufSize (pending s))" and "length (pending s) < DefaultBufSize"
  shows "ReadSlice s = ((pending s, Some EOF), s\<lparr>pending := []\<rparr>)"
  using assms by (simp add: ReadSlice_def Let_def)

lemma ReadLine_loop_line:
  assumes "LF \<in> set (pending s)"
    and "int (length buf) + int (length (raw_line (pending s))) \<le> mx"
  shows "ReadLine_loop mx buf s =
           ((trim_line_end (buf @ raw_line (pending s)), False, None),
            s\<lparr>pending := drop (length (raw_line (pending s))) (pending s)\<rparr>)"
  using assms
proof (induction "length (pending s)" arbitrary: s buf rule: less_induct)
  case less
  show ?case
  proof (cases "LF \<in> set (take DefaultBufSize (pending s))")
    case True
    with less.prems show ?thesis
      by (subst ReadLine_loop.simps) (simp add: ReadSlice_line)
  next
    case False
    show ?thesis
    proof (cases "DefaultBufSize \<le> length (pending s)")
      case full: True
      let ?s' = "s\<lparr>pending := drop DefaultBufSize (pending s)\<rparr>"
      let ?part = "take DefaultBufSize (pending s)"
      have raw: "raw_line (pending s) = ?part @ raw_line (pending ?s')"
        using raw_line_skip [OF False] by simp
      have len: "length ?part = DefaultBufSize" using full by simp
      have "set (pending s) = set ?part \<union> set (drop DefaultBufSize (pending s))"
        by (metis append_take_drop_id set_append)
      with less.prems(1) False have "LF \<in> set (pending ?s')" by auto
      moreover have "int (length (buf @ ?part)) + int (length (raw_line (pending ?s'))) \<le> mx"
        using less.prems(2) raw by simp
      moreover have "length (pending ?s') < length (pending s)"
        using full by (simp add: DefaultBufSize_def)
      ultimately have ih: "ReadLine_loop mx (buf @ ?part) ?s' =
           ((trim_line_end ((buf @ ?part) @ raw_line (pending ?s')), False, None),
            ?s'\<lparr>pending := drop (length (raw_line (pending ?s'))) (pending ?s')\<rparr>)"
        by (rule less.hyps [rotated])
      have fit: "\<not> int (length buf) + int (length ?part) > mx"
        using less.prems(2) raw by simp
      have "ReadLine_loop mx buf s = ReadLine_loop mx (buf @ ?part) ?s'"
        using fit by (subst ReadLine_loop.simps) (simp add: ReadSlice_full [OF False full] Let_def)
      also note ih
      finally show ?thesis using raw len by (simp add: add.commute)
    next
      case False
      with less.prems(1) have "LF \<in> set (take DefaultBufSize (pending s))" by simp
      with \<open>LF \<notin> set (take DefaultBufSize (pending s))\<close> show ?thesis by simp
    qed
  qed
qed

lemma ReadLine_loop_eof:
  assumes "LF \<notin> set (pending s)"
    and "int (length buf) + int (length (pending s)) \<le> mx"
  shows "ReadLine_loop mx buf s = ((buf @ pending s, False, Some EOF), s\<lparr>pending := []\<rparr>)"
  using assms
proof (induction "length (pending s)" arbitrary: s buf rule: less_induct)
  case less
  have nolf: "LF \<notin> set (take DefaultBufSize (pending s))"
    using less.prems(1) by (meson in_set_takeD)
  show ?case
  proof (cases "DefaultBufSize \<le> length (pending s)")
    case True
    let ?s' = "s\<lparr>pending := drop DefaultBufSize (pending s)\<rparr>"
    let ?part = "take DefaultBufSize (pending s)"
    have len: "length ?part = DefaultBufSize" using True by simp
    have "LF \<notin> set (pending ?s')" using less.prems(1) by (auto dest: in_set_dropD)
    moreover have "int (length (buf @ ?part)) + int (length (pending ?s')) \<le> mx"
      using less.prems(2) True by simp
    moreover have "length (pending ?s') < length (pending s)"
      using True by (simp add: DefaultBufSize_def)
    ultimately have ih: "ReadLine_loop mx (buf @ ?part) ?s' =
        (((buf @ ?part) @ pending ?s', False, Some EOF), ?s'\<lparr>pending := []\<rparr>)"
      by (rule less.hyps [rotated])
    have fit: "\<not> int (length buf) + int (length ?part) > mx"
      using less.prems(2) by simp
    have "ReadLine_loop mx buf s = ReadLine_loop mx (buf @ ?part) ?s'"
      using fit by (subst ReadLine_loop.simps) (simp add: ReadSlice_full [OF nolf True] Let_def)
    also note ih
    finally show ?thesis by simp
  next
    case False
    then have "length (pending s) < DefaultBufSize" by simp
    from ReadSlice_rest [OF nolf this] less.prems(2) show ?thesis
      by (subst ReadLine_loop.simps) (simp add: Let_def)
  qed
qed

lemma ReadLine_loop_long:
  assumes "mx < int (length buf) + int (length (raw_line (pending s)))"
  shows "fst (ReadLine_loop mx buf s) = ([], True, Some ErrLineTooLong)"
  using assms
proof (induction "length (pending s)" arbitrary: s buf rule: less_induct)
  case less
  show ?case
  proof (cases "LF \<in> set (take DefaultBufSize (pending s))")
    case True
    with less.prems show ?thesis
      by (subst ReadLine_loop.simps) (simp add: ReadSlice_line)
  next
    case nolf: False
    show ?thesis
    proof (cases "DefaultBufSize \<le> length (pending s)")
      case True
      let ?s' = "s\<lparr>pending := drop DefaultBufSize (pending s)\<rparr>"
      let ?part = "take DefaultBufSize (pending s)"
      have raw: "raw_line (pending s) = ?part @ raw_line (pending ?s')"
        using raw_line_skip [OF nolf] by simp
      show ?thesis
      proof (cases "int (length buf) + int (length ?part) > mx")
        case True
        then show ?thesis
          by (subst ReadLine_loop.simps) (simp add: ReadSlice_full [OF nolf \<open>DefaultBufSize \<le> length (pending s)\<close>])
      next
        case False
        have "mx < int (length (buf @ ?part)) + int (length (raw_line (pending ?s')))"
          using less.prems raw by simp
        moreover have "length (pending ?s') < length (pending s)"
          using True by (simp add: DefaultBufSize_def)
        ultimately have ih: "fst (ReadLine_loop mx (buf @ ?part) ?s') = ([], True, Some ErrLineTooLong)"
          by (rule less.hyps [rotated])
        have "ReadLine_loop mx buf s = ReadLine_loop mx (buf @ ?part) ?s'"
          using False by (subst ReadLine_loop.simps) (simp add: ReadSlice_full [OF nolf True] Let_def)
        with ih show ?thesis by simp
      qed
    next
      case False
      then have short: "length (pending s) < DefaultBufSize" by simp
      then have "take DefaultBufSize (pending s) = pending s" by simp
      with nolf have "raw_line (pending s) = pending s" by (simp add: raw_line_def)
      with ReadSlice_rest [OF nolf short] less.prems show ?thesis
        by (subst ReadLine_loop.simps) simp
    qed
  qed
qed

lemma fst_ReadLine:
  "0 < mx \<Longrightarrow> fst (ReadLine mx r) = fst (ReadLine_loop mx [] (br r))"
  by (simp add: ReadLine_def split: prod.splits)




text \<open>
  Claim C6, as amended. For a positive limit ReadLine fails with ErrLineTooLong exactly
  when the next line as it stands in the stream, its line feed and carriage return
  counted (or all that is left, when no line feed follows), is longer than the limit; it
  then returns no line (and \<open>isPrefix = true\<close>). A terminated line that fits the limit
  together with its terminator is returned successfully.
\<close>

theorem ReadLine_LineTooLong_iff:
  assumes "0 < mx"
  shows "(snd (snd (fst (ReadLine mx r))) = Some ErrLineTooLong
            \<longleftrightarrow> mx < int (length (raw_line (pending (br r)))))
       \<and> (mx < int (length (raw_line (pending (br r))))
            \<longrightarrow> fst (ReadLine mx r) = ([], True, Some ErrLineTooLong))
       \<and> (LF \<in> set (pending (br r)) \<and> int (length (raw_line (pending (br r)))) \<le> mx
            \<longrightarrow> fst (ReadLine mx r) = (trim_line_end (raw_line (pending (br r))), False, None))"
proof -
  let ?p = "pending (br r)"
  have long: "fst (ReadLine mx r) = ([], True, Some ErrLineTooLong)" if "mx < int (length (raw_line ?p))"
    using that assms ReadLine_loop_long [of mx "[]" "br r"]
    by (simp add: fst_ReadLine)
  have line: "fst (ReadLine mx r) = (trim_line_end (raw_line ?p), False, None)"
    if "LF \<in> set ?p" "int (length (raw_line ?p)) \<le> mx"
    using that assms ReadLine_loop_line [of "br r" "[]" mx]
    by (simp add: ReadLine_def)
  have eof: "fst (ReadLine mx r) = (?p, False, Some EOF)"
    if "LF \<notin> set ?p" "int (length (raw_line ?p)) \<le> mx"
    using that assms ReadLine_loop_eof [of "br r" "[]" mx]
    by (simp add: ReadLine_def raw_line_def)
  have "snd (snd (fst (ReadLine mx r))) \<noteq> Some ErrLineTooLong" if "\<not> mx < int (length (raw_line ?p))"
    using that line eof by (cases "LF \<in> set ?p") auto
  with long line show ?thesis by auto
qed

theorem ReadLine_LineTooLong_iff_witness:
  "(0::int) < 5
   \<and> raw_line (''abc'' @ CRLF @ ''x'') = ''abc'' @ CRLF
   \<and> fst (ReadLine 5 (NewCRLFFastReader \<lparr>pending = ''abc'' @ CRLF @ ''x'', grants = []\<rparr>)) = (''abc'', False, None)
   \<and> fst (ReadLine 4 (NewCRLFFastReader \<lparr>pending = ''abc'' @ CRLF @ ''x'', grants = []\<rparr>))
       = ([], True, Some ErrLineTooLong)"
proof -
  let ?r = "NewCRLFFastReader \<lparr>pending = ''abc'' @ CRLF @ ''x'', grants = []\<rparr>"
  have raw: "raw_line (pending (br ?r)) = ''abc'' @ CRLF"
    by (simp add: raw_line_def NewCRLFFastReader_def)
  have trim: "trim_line_end (''abc'' @ CRLF) = ''abc''"
    by (simp add: trim_line_end_def)
  have lf: "LF \<in> set (pending (br ?r))" by (simp add: NewCRLFFastReader_def)
  from ReadLine_LineTooLong_iff [of 5 ?r] ReadLine_LineTooLong_iff [of 4 ?r] raw trim lf
  show ?thesis by (simp add: NewCRLFFastReader_def raw_line_def)
qed

text \<open>
  The claim as it was stated fails: the line \<open>abc\<close> has three bytes, the limit is
  three, and ReadLine fails with ErrLineTooLong, because the two bytes of the terminator
  count towards the limit.
\<close>

theorem ReadLine_terminator_counts_counterexample:
  "int (length ''abc'') \<le> 3
   \<and> fst (ReadLine 3 (NewCRLFFastReader \<lparr>pending = ''abc'' @ CRLF @ ''x'', grants = []\<rparr>))
     = ([], True, Some ErrLineTooLong)"
proof -
  let ?s = "\<lparr>pending = ''abc'' @ CRLF @ ''x'', grants = []\<rparr>"
  have "raw_line (pending ?s) = ''abc'' @ CRLF" by (simp add: raw_line_def)
  then have "3 < int (length ([] :: string)) + int (length (raw_line (pending ?s)))" by simp
  from ReadLine_loop_long [OF this] show ?thesis
    by (simp add: fst_ReadLine NewCRLFFastReader_def)
qed

section \<open>Trailers of a chunked body\<close>

lemma bufio_ReadString_line:
  assumes "d \<notin> set c" and "pending s = c @ d # rest"
  shows "bufio_ReadString d s = ((c @ [d], None), s\<lparr>pending := rest\<rparr>)"
proof -
  from assms have "takeWhile (\<lambda>x. x \<noteq> d) (pending s) = c"
    by (auto simp: takeWhile_tail)
  with assms(2) show ?thesis by (simp add: bufio_ReadString_def Let_def)
qed

lemma IndexByte_first:
  "c \<notin> set k \<Longrightarrow> IndexByte (k @ c # v) c = int (length k)"
  by (induction k) (auto simp: Let_def)

lemma IndexByte_none:
  "c \<notin> set xs \<Longrightarrow> IndexByte xs c = - 1"
  by (induction xs) (auto simp: Let_def)

lemma TrimSuffix_append: "TrimSuffix (s @ t) t = s"
  by (simp add: TrimSuffix_def)

lemma TrimSuffix_subset: "set (TrimSuffix s t) \<subseteq> set s"
  by (auto simp: TrimSuffix_def dest: in_set_takeD)

lemma readTrailers_blank:
  assumes "pending s = CRLF @ rest"
  shows "readTrailers To s h = (None, s\<lparr>pending := rest\<rparr>, h)"
proof -
  have "bufio_ReadString LF s = (([CR] @ [LF], None), s\<lparr>pending := rest\<rparr>)"
    using assms by (intro bufio_ReadString_line) auto
  then show ?thesis by (subst readTrailers.simps) simp
qed

lemma readTrailers_malformed:
  assumes "LF \<notin> set b" and "b \<noteq> [CR]" and "CHR '':'' \<notin> set b \<or> take 1 b = '':''"
    and "pending s = b @ [LF] @ rest"
  shows "readTrailers To s h = (Some ErrUnexpectedTrailer, s\<lparr>pending := rest\<rparr>, h)"
proof -
  have rs: "bufio_ReadString LF s = ((b @ [LF], None), s\<lparr>pending := rest\<rparr>)"
    using assms by (intro bufio_ReadString_line) auto
  have ne: "b @ [LF] \<noteq> CRLF" using assms(2) by auto
  have "IndexByte (TrimSuffix (b @ [LF]) CRLF) (CHR '':'') \<le> 0"
  proof (cases "CHR '':'' \<in> set b")
    case False
    then have "CHR '':'' \<notin> set (TrimSuffix (b @ [LF]) CRLF)"
      using TrimSuffix_subset [of "b @ [LF]" CRLF] by auto
    then show ?thesis by (simp add: IndexByte_none)
  next
    case True
    with assms(3) obtain b' where b: "b = CHR '':'' # b'" by (cases b) auto
    have "\<exists>t. TrimSuffix (b @ [LF]) CRLF = CHR '':'' # t"
    proof (cases "length CRLF \<le> length (b @ [LF]) \<and> drop (length (b @ [LF]) - length CRLF) (b @ [LF]) = CRLF")
      case False
      then show ?thesis using b by (auto simp: TrimSuffix_def)
    next
      case True
      then have "b' \<noteq> []" using b by auto
      then have "take (length (b @ [LF]) - length CRLF) (b @ [LF]) = CHR '':'' # take (length b' - 1) (b' @ [LF])"
        using b by (cases b') auto
      moreover from True have "TrimSuffix (b @ [LF]) CRLF = take (length (b @ [LF]) - length CRLF) (b @ [LF])"
        by (simp add: TrimSuffix_def)
      ultimately show ?thesis by simp
    qed
    then show ?thesis by auto
  qed
  then show ?thesis
    by (subst readTrailers.simps) (simp add: rs ne Let_def del: append_assoc append.simps)
qed

lemma nextChunkSize_zero:
  assumes "pending s = ''0'' @ CRLF @ rest"
  shows "nextChunkSize s = (Inr 0, s\<lparr>pending := rest\<rparr>)"
proof -
  have rs: "bufio_ReadString LF s = ((''0'' @ [CR] @ [LF], None), s\<lparr>pending := rest\<rparr>)"
    using assms bufio_ReadString_line [of LF "''0'' @ [CR]" s rest] by simp
  have ts: "TrimSpace (''0'' @ [CR] @ [LF]) = ''0''" by code_simp
  have px: "ParseInt ''0'' 16 = Inr 0" by code_simp
  show ?thesis
    by (simp add: nextChunkSize_def rs ts px Let_def del: append_assoc append.simps)
qed

subsection \<open>The header store after Add\<close>

lemma map_of_header_put: "map_of (header_put h k vs) = (map_of h)(k \<mapsto> vs)"
  by (induction h k vs rule: header_put.induct) (auto simp: fun_eq_iff)

lemma map_of_Add:
  "map_of (Add To h key val)
     = (map_of h)(CanonicalHeaderKey To key \<mapsto> header_at h (CanonicalHeaderKey To key) @ [val])"
  by (simp add: Add_def Let_def map_of_header_put)

lemma map_of_Add_all: "map_of (Add_all To h fs) = with_trailers To h fs"
proof (induction fs arbitrary: h)
  case Nil
  show ?case by (simp add: Add_all_def with_trailers_def trailer_values_def fun_eq_iff)
next
  case (Cons f fs)
  obtain k v e where f: "f = (k, v, e)" by (cases f)
  let ?K = "CanonicalHeaderKey To (CanonicalHeaderKey To k)"
  let ?h = "Add To h (CanonicalHeaderKey To k) (TrimSpace v)"
  have "Add_all To h (f # fs) = Add_all To ?h fs" by (simp add: Add_all_def f)
  then have "map_of (Add_all To h (f # fs)) = with_trailers To ?h fs" by (simp add: Cons.IH)
  also have "\<dots> = with_trailers To h (f # fs)"
  proof
    fix K
    have tv: "trailer_values To (f # fs) K = (if ?K = K then [TrimSpace v] else []) @ trailer_values To fs K"
      by (simp add: trailer_values_def f)
    have at: "header_at ?h K = (if K = ?K then header_at h ?K @ [TrimSpace v] else header_at h K)"
      by (simp add: header_at_def map_of_Add)
    have mo: "map_of ?h K = (if K = ?K then Some (header_at h ?K @ [TrimSpace v]) else map_of h K)"
      by (simp add: map_of_Add)
    show "with_trailers To ?h fs K = with_trailers To h (f # fs) K"
      by (simp add: with_trailers_def tv at mo)
  qed
  finally show ?case .
qed

lemma Values_Add_all:
  "Values To (Add_all To h fs) key = Values To h key @ trailer_values To fs (CanonicalHeaderKey To key)"
  by (simp add: Values_def header_at_def map_of_Add_all with_trailers_def)

lemma Get_Values: "Get To h key = (case Values To h key of [] \<Rightarrow> [] | v # _ \<Rightarrow> v)"
  by (simp add: Get_def Values_def header_at_def split: option.splits list.splits)

subsection \<open>Trailer lines\<close>

lemma TrimSuffix_line_feed:
  assumes "l \<noteq> []" and "last l \<noteq> CR"
  shows "TrimSuffix (l @ [LF]) CRLF = l @ [LF]"
  using assms by (cases l rule: rev_cases) (auto simp: TrimSuffix_def)

lemma readTrailers_field_CRLF:
  assumes "k \<noteq> []" and "CHR '':'' \<notin> set k" and "LF \<notin> set k" and "LF \<notin> set v"
    and "pending s = (k @ '':'' @ v @ CRLF) @ rest"
  shows "readTrailers To s h =
           readTrailers To (s\<lparr>pending := rest\<rparr>) (Add To h (CanonicalHeaderKey To k) (TrimSpace v))"
proof -
  let ?line1 = "k @ CHR '':'' # v"
  have rs: "bufio_ReadString LF s = (((?line1 @ [CR]) @ [LF], None), s\<lparr>pending := rest\<rparr>)"
    using assms by (intro bufio_ReadString_line) auto
  have ne: "(?line1 @ [CR]) @ [LF] \<noteq> CRLF" using assms(1) by (cases k) auto
  have ts: "TrimSuffix ((?line1 @ [CR]) @ [LF]) CRLF = ?line1"
    using TrimSuffix_append [of ?line1 CRLF] by simp
  have ix: "IndexByte ?line1 (CHR '':'') = int (length k)"
    using assms(2) by (rule IndexByte_first)
  have tk: "take (length k) ?line1 = k" by simp
  have dr: "drop (nat (int (length k) + 1)) ?line1 = v" by (simp add: nat_add_distrib)
  show ?thesis
    by (subst readTrailers.simps)
       (simp add: rs ne ts ix tk dr assms(1) Let_def del: append_assoc append.simps take_append drop_append)
qed

lemma readTrailers_field_LF:
  assumes "k \<noteq> []" and "CHR '':'' \<notin> set k" and "LF \<notin> set k" and "LF \<notin> set v"
    and "v = [] \<or> last v \<noteq> CR"
    and "pending s = (k @ '':'' @ v @ [LF]) @ rest"
  shows "readTrailers To s h =
           readTrailers To (s\<lparr>pending := rest\<rparr>) (Add To h (CanonicalHeaderKey To k) (TrimSpace v))"
proof -
  let ?line1 = "k @ CHR '':'' # v"
  have rs: "bufio_ReadString LF s = ((?line1 @ [LF], None), s\<lparr>pending := rest\<rparr>)"
    using assms by (intro bufio_ReadString_line) auto
  have ne: "?line1 @ [LF] \<noteq> CRLF" using assms(1) by (cases k) auto
  have "last ?line1 \<noteq> CR" using assms(5) by auto
  then have ts: "TrimSuffix (?line1 @ [LF]) CRLF = ?line1 @ [LF]"
    by (intro TrimSuffix_line_feed) auto
  have ix: "IndexByte (?line1 @ [LF]) (CHR '':'') = int (length k)"
    using IndexByte_first [OF assms(2), of "v @ [LF]"] by simp
  have tk: "take (length k) (?line1 @ [LF]) = k" by simp
  have dr: "drop (nat (int (length k) + 1)) (?line1 @ [LF]) = v @ [LF]" by (simp add: nat_add_distrib)
  have tr: "TrimSpace (v @ [LF]) = TrimSpace v" by (rule TrimSpace_snoc) simp
  show ?thesis
    by (subst readTrailers.simps)
       (simp add: rs ne ts ix tk dr tr assms(1) Let_def del: append_assoc append.simps take_append drop_append)
qed

lemma readTrailers_field:
  assumes "trailer_field (k, v, e)" and "pending s = (k @ '':'' @ v @ e) @ rest"
  shows "readTrailers To s h =
           readTrailers To (s\<lparr>pending := rest\<rparr>) (Add To h (CanonicalHeaderKey To k) (TrimSpace v))"
proof -
  from assms(1) have k: "k \<noteq> []" "CHR '':'' \<notin> set k" "LF \<notin> set k" and v: "LF \<notin> set v"
    and e: "e = CRLF \<or> e = [LF]" by (auto simp: trailer_field_def)
  consider (crlf) "e = CRLF" | (lf) "e = [LF]" "v = [] \<or> last v \<noteq> CR"
    | (cr) v' where "e = [LF]" "v = v' @ [CR]"
    using e by (cases v rule: rev_cases) auto
  then show ?thesis
  proof cases
    case crlf
    with assms(2) show ?thesis by (intro readTrailers_field_CRLF k v) simp
  next
    case lf
    with assms(2) show ?thesis by (intro readTrailers_field_LF k v) simp_all
  next
    case cr
    from cr v have v': "LF \<notin> set v'" by simp
    from cr assms(2) have "pending s = (k @ '':'' @ v' @ CRLF) @ rest" by simp
    from readTrailers_field_CRLF [OF k v' this]
    have "readTrailers To s h =
        readTrailers To (s\<lparr>pending := rest\<rparr>) (Add To h (CanonicalHeaderKey To k) (TrimSpace v'))" .
    moreover have "TrimSpace (v' @ [CR]) = TrimSpace v'" by (rule TrimSpace_snoc) simp
    ultimately show ?thesis using cr by simp
  qed
qed

lemma readTrailers_fields:
  assumes "\<forall>f \<in> set fs. trailer_field f"
    and "pending s = trailer_lines fs @ rest"
  shows "readTrailers To s h = readTrailers To (s\<lparr>pending := rest\<rparr>) (Add_all To h fs)"
  using assms
proof (induction fs arbitrary: s h)
  case Nil
  then have "s\<lparr>pending := rest\<rparr> = s" by (simp add: trailer_lines_def)
  then show ?case by (simp add: Add_all_def)
next
  case (Cons f fs)
  obtain k v e where f: "f = (k, v, e)" by (cases f)
  let ?s' = "s\<lparr>pending := trailer_lines fs @ rest\<rparr>"
  let ?h' = "Add To h (CanonicalHeaderKey To k) (TrimSpace v)"
  from Cons.prems f have "trailer_field (k, v, e)"
    and "pending s = (k @ '':'' @ v @ e) @ (trailer_lines fs @ rest)"
    by (simp_all add: trailer_lines_def)
  then have "readTrailers To s h = readTrailers To ?s' ?h'" by (rule readTrailers_field)
  also have "\<dots> = readTrailers To (?s'\<lparr>pending := rest\<rparr>) (Add_all To ?h' fs)"
    using Cons.prems by (intro Cons.IH) auto
  finally show ?case using f by (simp add: Add_all_def)
qed

lemma readTrailers_eof:
  assumes "LF \<notin> set (pending s)"
  shows "readTrailers To s h = (Some ErrUnexpectedTrailer, s\<lparr>pending := []\<rparr>, h)"
  using assms by (subst readTrailers.simps) (simp add: bufio_ReadString_def)

lemma trailer_section_cases:
  "\<exists>fs. (\<forall>f \<in> set fs. trailer_field f)
     \<and> ((\<exists>rest. p = trailer_lines fs @ CRLF @ rest)
        \<or> (\<exists>b rest. p = trailer_lines fs @ b @ [LF] @ rest
              \<and> LF \<notin> set b \<and> b \<noteq> [CR] \<and> (CHR '':'' \<notin> set b \<or> take 1 b = '':''))
        \<or> (\<exists>b. p = trailer_lines fs @ b \<and> LF \<notin> set b))"
proof (induction "length p" arbitrary: p rule: less_induct)
  case less
  show ?case
  proof (cases "LF \<in> set p")
    case False
    then have "p = trailer_lines [] @ p \<and> LF \<notin> set p" by (simp add: trailer_lines_def)
    then show ?thesis by (intro exI [of _ "[]"]) auto
  next
    case True
    then obtain b rest where p: "p = b @ [LF] @ rest" and b: "LF \<notin> set b"
      by (auto dest: split_list_first)
    show ?thesis
    proof (cases "b = [CR]")
      case True
      with p have "p = trailer_lines [] @ CRLF @ rest" by (simp add: trailer_lines_def)
      then show ?thesis by (intro exI [of _ "[]"]) auto
    next
      case notblank: False
      show ?thesis
      proof (cases "CHR '':'' \<notin> set b \<or> take 1 b = '':''")
        case True
        with p b notblank have "p = trailer_lines [] @ b @ [LF] @ rest
            \<and> LF \<notin> set b \<and> b \<noteq> [CR] \<and> (CHR '':'' \<notin> set b \<or> take 1 b = '':'')"
          by (simp add: trailer_lines_def)
        then show ?thesis by (intro exI [of _ "[]"]) auto
      next
        case False
        then have colon: "CHR '':'' \<in> set b" and first: "take 1 b \<noteq> '':''" by auto
        from colon obtain k v where kv: "b = k @ CHR '':'' # v" and k: "CHR '':'' \<notin> set k"
          by (auto dest: split_list_first)
        from first kv have kne: "k \<noteq> []" by auto
        from b kv kne k have field: "trailer_field (k, v, [LF])" by (simp add: trailer_field_def)
        from p have "length rest < length p" by simp
        from less [OF this] obtain fs where fs: "\<forall>f \<in> set fs. trailer_field f"
          and forms: "(\<exists>rest'. rest = trailer_lines fs @ CRLF @ rest')
            \<or> (\<exists>b' rest'. rest = trailer_lines fs @ b' @ [LF] @ rest'
                  \<and> LF \<notin> set b' \<and> b' \<noteq> [CR] \<and> (CHR '':'' \<notin> set b' \<or> take 1 b' = '':''))
            \<or> (\<exists>b'. rest = trailer_lines fs @ b' \<and> LF \<notin> set b')"
          by blast
        have cons: "p = trailer_lines ((k, v, [LF]) # fs) @ t" if "rest = trailer_lines fs @ t" for t
          using that p kv by (simp add: trailer_lines_def)
        from field fs have all: "\<forall>f \<in> set ((k, v, [LF]) # fs). trailer_field f" by simp
        from forms cons have "(\<exists>rest'. p = trailer_lines ((k, v, [LF]) # fs) @ CRLF @ rest')
            \<or> (\<exists>b' rest'. p = trailer_lines ((k, v, [LF]) # fs) @ b' @ [LF] @ rest'
                  \<and> LF \<notin> set b' \<and> b' \<noteq> [CR] \<and> (CHR '':'' \<notin> set b' \<or> take 1 b' = '':''))
            \<or> (\<exists>b'. p = trailer_lines ((k, v, [LF]) # fs) @ b' \<and> LF \<notin> set b')"
          by blast
        with all show ?thesis by blast
      qed
    qed
  qed
qed

lemma readTrailers_section:
  assumes "\<forall>f \<in> set fs. trailer_field f"
  shows "pending s = trailer_lines fs @ CRLF @ rest \<Longrightarrow>
           readTrailers To s h = (None, s\<lparr>pending := rest\<rparr>, Add_all To h fs)"
    and "pending s = trailer_lines fs @ b @ [LF] @ rest \<Longrightarrow> LF \<notin> set b \<Longrightarrow> b \<noteq> [CR]
           \<Longrightarrow> CHR '':'' \<notin> set b \<or> take 1 b = '':'' \<Longrightarrow>
           readTrailers To s h = (Some ErrUnexpectedTrailer, s\<lparr>pending := rest\<rparr>, Add_all To h fs)"
    and "pending s = trailer_lines fs @ b \<Longrightarrow> LF \<notin> set b \<Longrightarrow>
           readTrailers To s h = (Some ErrUnexpectedTrailer, s\<lparr>pending := []\<rparr>, Add_all To h fs)"
proof -
  let ?h = "Add_all To h fs"
  {
    assume a: "pending s = trailer_lines fs @ CRLF @ rest"
    let ?s' = "s\<lparr>pending := CRLF @ rest\<rparr>"
    from a assms have "readTrailers To s h = readTrailers To ?s' ?h"
      by (intro readTrailers_fields) auto
    also have "\<dots> = (None, ?s'\<lparr>pending := rest\<rparr>, ?h)"
      by (rule readTrailers_blank) simp
    finally show "readTrailers To s h = (None, s\<lparr>pending := rest\<rparr>, ?h)" by simp
  }
  {
    assume a: "pending s = trailer_lines fs @ b @ [LF] @ rest" "LF \<notin> set b" "b \<noteq> [CR]"
      "CHR '':'' \<notin> set b \<or> take 1 b = '':''"
    let ?s' = "s\<lparr>pending := b @ [LF] @ rest\<rparr>"
    from a assms have "readTrailers To s h = readTrailers To ?s' ?h"
      by (intro readTrailers_fields) auto
    also from a have "\<dots> = (Some ErrUnexpectedTrailer, ?s'\<lparr>pending := rest\<rparr>, ?h)"
      by (intro readTrailers_malformed) auto
    finally show "readTrailers To s h = (Some ErrUnexpectedTrailer, s\<lparr>pending := rest\<rparr>, ?h)" by simp
  }
  {
    assume a: "pending s = trailer_lines fs @ b" "LF \<notin> set b"
    let ?s' = "s\<lparr>pending := b\<rparr>"
    from a assms have "readTrailers To s h = readTrailers To ?s' ?h"
      by (intro readTrailers_fields) auto
    also from a have "\<dots> = (Some ErrUnexpectedTrailer, ?s'\<lparr>pending := []\<rparr>, ?h)"
      by (intro readTrailers_eof) auto
    finally show "readTrailers To s h = (Some ErrUnexpectedTrailer, s\<lparr>pending := []\<rparr>, ?h)" by simp
  }
qed

lemma readTrailers_total:
  "\<exists>fs s'. (\<forall>f \<in> set fs. trailer_field f)
     \<and> (readTrailers To s h = (None, s', Add_all To h fs)
        \<or> readTrailers To s h = (Some ErrUnexpectedTrailer, s', Add_all To h fs))"
proof -
  from trailer_section_cases [of "pending s"] obtain fs where fs: "\<forall>f \<in> set fs. trailer_field f"
    and forms: "(\<exists>rest. pending s = trailer_lines fs @ CRLF @ rest)
        \<or> (\<exists>b rest. pending s = trailer_lines fs @ b @ [LF] @ rest
              \<and> LF \<notin> set b \<and> b \<noteq> [CR] \<and> (CHR '':'' \<notin> set b \<or> take 1 b = '':''))
        \<or> (\<exists>b. pending s = trailer_lines fs @ b \<and> LF \<notin> set b)"
    by blast
  from forms readTrailers_section [OF fs, where s = s and To = To and h = h]
  have "\<exists>s'. readTrailers To s h = (None, s', Add_all To h fs)
        \<or> readTrailers To s h = (Some ErrUnexpectedTrailer, s', Add_all To h fs)"
    by blast
  with fs show ?thesis by blast
qed

text \<open>
  Claim C8, as amended. With a live context: on the size line \<open>0\<close> the reader moves
  to the trailer state without returning bytes. In the trailer state one Read consumes
  the trailer lines. Every line that holds a colon after a key that is not empty, ended by
  CR LF or by LF alone, is added to the reader's header store, which for a reader that
  NewBodyReader returns is the header of the request: the store then holds, under the
  canonical form of each key (taken by readTrailers and once more by Add), the values it
  held before followed by the trimmed values of the lines with that key, in their order,
  and is unchanged under every other key; Values and Get answer from it. On the empty line CR LF the call returns no body bytes and io.EOF and
  the reader is done. A line that has no colon or starts with one, which includes the
  empty line ended by LF alone, makes the call fail with ErrUnexpectedTrailer, and so does
  the end of the stream before the empty line; the lines before it have been added, no
  body bytes are returned and the reader stays in the trailer state. Every stream is of
  one of these three forms, so a Read in the trailer state always ends in one of the two
  ways. Once done, every Read returns no bytes and io.EOF and changes nothing.
\<close>

theorem chunkedReader_trailers:
  assumes "cr_ctx c = None" and "\<forall>f \<in> set fs. trailer_field f"
  shows "(cr_state c = stateChunkHeader \<and> pending (cr_r c) = ''0'' @ CRLF @ rest \<longrightarrow>
            chunkedReader_Read To lenp c =
              (([], None), c\<lparr>cr_r := (cr_r c)\<lparr>pending := rest\<rparr>, cr_state := stateTrailer\<rparr>))
       \<and> (cr_state c = stateTrailer \<and> pending (cr_r c) = trailer_lines fs @ CRLF @ rest \<longrightarrow>
            chunkedReader_Read To lenp c =
              (([], Some EOF),
               c\<lparr>cr_r := (cr_r c)\<lparr>pending := rest\<rparr>,
                 cr_header := Add_all To (cr_header c) fs,
                 cr_state := stateDone\<rparr>))
       \<and> (cr_state c = stateTrailer \<and> pending (cr_r c) = trailer_lines fs @ b @ [LF] @ rest
            \<and> LF \<notin> set b \<and> b \<noteq> [CR] \<and> (CHR '':'' \<notin> set b \<or> take 1 b = '':'') \<longrightarrow>
            chunkedReader_Read To lenp c =
              (([], Some ErrUnexpectedTrailer),
               c\<lparr>cr_r := (cr_r c)\<lparr>pending := rest\<rparr>,
                 cr_header := Add_all To (cr_header c) fs\<rparr>))
       \<and> (cr_state c = stateTrailer \<and> pending (cr_r c) = trailer_lines fs @ b \<and> LF \<notin> set b \<longrightarrow>
            chunkedReader_Read To lenp c =
              (([], Some ErrUnexpectedTrailer),
               c\<lparr>cr_r := (cr_r c)\<lparr>pending := []\<rparr>,
                 cr_header := Add_all To (cr_header c) fs\<rparr>))
       \<and> (cr_state c = stateTrailer \<longrightarrow>
            (\<exists>fs' s'. (\<forall>f \<in> set fs'. trailer_field f)
               \<and> (chunkedReader_Read To lenp c =
                     (([], Some EOF),
                      c\<lparr>cr_r := s', cr_header := Add_all To (cr_header c) fs', cr_state := stateDone\<rparr>)
                  \<or> chunkedReader_Read To lenp c =
                     (([], Some ErrUnexpectedTrailer),
                      c\<lparr>cr_r := s', cr_header := Add_all To (cr_header c) fs'\<rparr>))))
       \<and> map_of (Add_all To (cr_header c) fs) = with_trailers To (cr_header c) fs
       \<and> (\<forall>key. Values To (Add_all To (cr_header c) fs) key
                  = Values To (cr_header c) key @ trailer_values To fs (CanonicalHeaderKey To key))
       \<and> (\<forall>key. Get To (Add_all To (cr_header c) fs) key
                  = (case Values To (cr_header c) key @ trailer_values To fs (CanonicalHeaderKey To key) of
                       [] \<Rightarrow> [] | v # _ \<Rightarrow> v))
       \<and> (cr_state c = stateDone \<longrightarrow> chunkedReader_Read To lenp c = (([], Some EOF), c))
       \<and> (EqualFold (Get To hdr ''Transfer-Encoding'') ''chunked'' \<longrightarrow>
            (\<exists>c0. NewBodyReader To ctx hdr r maxSize = Inr (Chunked c0, - 1) \<and> cr_header c0 = hdr))"
proof (intro conjI impI)
  assume "cr_state c = stateChunkHeader \<and> pending (cr_r c) = ''0'' @ CRLF @ rest"
  with assms(1) nextChunkSize_zero [of "cr_r c" rest]
  show "chunkedReader_Read To lenp c =
      (([], None), c\<lparr>cr_r := (cr_r c)\<lparr>pending := rest\<rparr>, cr_state := stateTrailer\<rparr>)"
    by (simp add: chunkedReader_Read_def)
next
  assume a: "cr_state c = stateTrailer \<and> pending (cr_r c) = trailer_lines fs @ CRLF @ rest"
  then have "readTrailers To (cr_r c) (cr_header c)
      = (None, (cr_r c)\<lparr>pending := rest\<rparr>, Add_all To (cr_header c) fs)"
    by (intro readTrailers_section(1) [OF assms(2)]) simp
  with a assms(1) show "chunkedReader_Read To lenp c =
      (([], Some EOF), c\<lparr>cr_r := (cr_r c)\<lparr>pending := rest\<rparr>,
         cr_header := Add_all To (cr_header c) fs, cr_state := stateDone\<rparr>)"
    by (simp add: chunkedReader_Read_def)
next
  assume a: "cr_state c = stateTrailer \<and> pending (cr_r c) = trailer_lines fs @ b @ [LF] @ rest
     \<and> LF \<notin> set b \<and> b \<noteq> [CR] \<and> (CHR '':'' \<notin> set b \<or> take 1 b = '':'')"
  then have "readTrailers To (cr_r c) (cr_header c)
      = (Some ErrUnexpectedTrailer, (cr_r c)\<lparr>pending := rest\<rparr>, Add_all To (cr_header c) fs)"
    by (intro readTrailers_section(2) [OF assms(2), of _ b]) simp_all
  with a assms(1) show "chunkedReader_Read To lenp c =
      (([], Some ErrUnexpectedTrailer), c\<lparr>cr_r := (cr_r c)\<lparr>pending := rest\<rparr>,
         cr_header := Add_all To (cr_header c) fs\<rparr>)"
    by (simp add: chunkedReader_Read_def)
next
  assume a: "cr_state c = stateTrailer \<and> pending (cr_r c) = trailer_lines fs @ b \<and> LF \<notin> set b"
  then have "readTrailers To (cr_r c) (cr_header c)
      = (Some ErrUnexpectedTrailer, (cr_r c)\<lparr>pending := []\<rparr>, Add_all To (cr_header c) fs)"
    by (intro readTrailers_section(3) [OF assms(2), of _ b]) simp_all
  with a assms(1) show "chunkedReader_Read To lenp c =
      (([], Some ErrUnexpectedTrailer), c\<lparr>cr_r := (cr_r c)\<lparr>pending := []\<rparr>,
         cr_header := Add_all To (cr_header c) fs\<rparr>)"
    by (simp add: chunkedReader_Read_def)
next
  assume st: "cr_state c = stateTrailer"
  from readTrailers_total [of To "cr_r c" "cr_header c"] obtain fs' s' where
    fs': "\<forall>f \<in> set fs'. trailer_field f"
    and r: "readTrailers To (cr_r c) (cr_header c) = (None, s', Add_all To (cr_header c) fs')
        \<or> readTrailers To (cr_r c) (cr_header c) = (Some ErrUnexpectedTrailer, s', Add_all To (cr_header c) fs')"
    by blast
  from r st assms(1) have "chunkedReader_Read To lenp c =
         (([], Some EOF), c\<lparr>cr_r := s', cr_header := Add_all To (cr_header c) fs', cr_state := stateDone\<rparr>)
      \<or> chunkedReader_Read To lenp c =
         (([], Some ErrUnexpectedTrailer), c\<lparr>cr_r := s', cr_header := Add_all To (cr_header c) fs'\<rparr>)"
    by (auto simp: chunkedReader_Read_def)
  with fs' show "\<exists>fs' s'. (\<forall>f \<in> set fs'. trailer_field f)
       \<and> (chunkedReader_Read To lenp c =
             (([], Some EOF),
              c\<lparr>cr_r := s', cr_header := Add_all To (cr_header c) fs', cr_state := stateDone\<rparr>)
          \<or> chunkedReader_Read To lenp c =
             (([], Some ErrUnexpectedTrailer),
              c\<lparr>cr_r := s', cr_header := Add_all To (cr_header c) fs'\<rparr>))"
    by blast
next
  show "map_of (Add_all To (cr_header c) fs) = with_trailers To (cr_header c) fs"
    by (rule map_of_Add_all)
next
  show "\<forall>key. Values To (Add_all To (cr_header c) fs) key
      = Values To (cr_header c) key @ trailer_values To fs (CanonicalHeaderKey To key)"
    by (simp add: Values_Add_all)
next
  show "\<forall>key. Get To (Add_all To (cr_header c) fs) key
      = (case Values To (cr_header c) key @ trailer_values To fs (CanonicalHeaderKey To key) of
           [] \<Rightarrow> [] | v # _ \<Rightarrow> v)"
    by (simp add: Get_Values Values_Add_all)
next
  assume "cr_state c = stateDone"
  with assms(1) show "chunkedReader_Read To lenp c = (([], Some EOF), c)"
    by (simp add: chunkedReader_Read_def)
next
  assume "EqualFold (Get To hdr ''Transfer-Encoding'') ''chunked''"
  then show "\<exists>c0. NewBodyReader To ctx hdr r maxSize = Inr (Chunked c0, - 1) \<and> cr_header c0 = hdr"
    by (simp add: NewBodyReader_def newChunkedReader_def)
qed

theorem chunkedReader_trailers_witness:
  "chunkedReader_Read unmapped 512
      \<lparr>cr_ctx = None, cr_r = \<lparr>pending = ''0'' @ CRLF @ ''X-T: v'' @ CRLF @ CRLF, grants = []\<rparr>,
       cr_state = stateChunkHeader, cr_remain = 0, cr_limit = 0, cr_readTotal = 9, cr_header = []\<rparr>
     = (([], None),
        \<lparr>cr_ctx = None, cr_r = \<lparr>pending = ''X-T: v'' @ CRLF @ CRLF, grants = []\<rparr>,
         cr_state = stateTrailer, cr_remain = 0, cr_limit = 0, cr_readTotal = 9, cr_header = []\<rparr>)
   \<and> chunkedReader_Read unmapped 512
        \<lparr>cr_ctx = None,
         cr_r = \<lparr>pending = ''x-t: v'' @ CRLF @ ''X-T:  w '' @ [LF] @ ''Expires:0'' @ CRLF @ CRLF @ ''GET'',
                 grants = []\<rparr>,
         cr_state = stateTrailer, cr_remain = 0, cr_limit = 0, cr_readTotal = 9,
         cr_header = [(''Host'', [''a''])]\<rparr>
     = (([], Some EOF),
        \<lparr>cr_ctx = None, cr_r = \<lparr>pending = ''GET'', grants = []\<rparr>,
         cr_state = stateDone, cr_remain = 0, cr_limit = 0, cr_readTotal = 9,
         cr_header = [(''Host'', [''a'']), (''X-T'', [''v'', ''w'']), (''Expires'', [''0''])]\<rparr>)
   \<and> map_of [(''Host'', [''a'']), (''X-T'', [''v'', ''w'']), (''Expires'', [''0''])] ''X-T'' = Some [''v'', ''w'']
   \<and> Get unmapped [(''Host'', [''a'']), (''X-T'', [''v'', ''w'']), (''Expires'', [''0''])] ''x-t'' = ''v''
   \<and> chunkedReader_Read unmapped 512
        \<lparr>cr_ctx = None, cr_r = \<lparr>pending = [CHR 0xFF, CHR ''A''] @ '':x'' @ CRLF @ CRLF, grants = []\<rparr>,
         cr_state = stateTrailer, cr_remain = 0, cr_limit = 0, cr_readTotal = 9, cr_header = []\<rparr>
     = (([], Some EOF),
        \<lparr>cr_ctx = None, cr_r = \<lparr>pending = [], grants = []\<rparr>,
         cr_state = stateDone, cr_remain = 0, cr_limit = 0, cr_readTotal = 9,
         cr_header = [([CHR 0xEF, CHR 0xBF, CHR 0xBD, CHR ''a''], [''x''])]\<rparr>)
   \<and> chunkedReader_Read unmapped 512
        \<lparr>cr_ctx = None, cr_r = \<lparr>pending = ''X-T: v'' @ CRLF @ ''no colon here'' @ CRLF @ CRLF, grants = []\<rparr>,
         cr_state = stateTrailer, cr_remain = 0, cr_limit = 0, cr_readTotal = 9, cr_header = []\<rparr>
     = (([], Some ErrUnexpectedTrailer),
        \<lparr>cr_ctx = None, cr_r = \<lparr>pending = CRLF, grants = []\<rparr>,
         cr_state = stateTrailer, cr_remain = 0, cr_limit = 0, cr_readTotal = 9,
         cr_header = [(''X-T'', [''v''])]\<rparr>)
   \<and> chunkedReader_Read unmapped 512
        \<lparr>cr_ctx = None, cr_r = \<lparr>pending = ''X-T: v'' @ CRLF @ ''X-U: cut'', grants = []\<rparr>,
         cr_state = stateTrailer, cr_remain = 0, cr_limit = 0, cr_readTotal = 9, cr_header = []\<rparr>
     = (([], Some ErrUnexpectedTrailer),
        \<lparr>cr_ctx = None, cr_r = \<lparr>pending = [], grants = []\<rparr>,
         cr_state = stateTrailer, cr_remain = 0, cr_limit = 0, cr_readTotal = 9,
         cr_header = [(''X-T'', [''v''])]\<rparr>)
   \<and> chunkedReader_Read unmapped 512
        \<lparr>cr_ctx = None, cr_r = \<lparr>pending = ''GET'', grants = []\<rparr>,
         cr_state = stateDone, cr_remain = 0, cr_limit = 0, cr_readTotal = 9,
         cr_header = [(''X-T'', [''v''])]\<rparr>
     = (([], Some EOF),
        \<lparr>cr_ctx = None, cr_r = \<lparr>pending = ''GET'', grants = []\<rparr>,
         cr_state = stateDone, cr_remain = 0, cr_limit = 0, cr_readTotal = 9,
         cr_header = [(''X-T'', [''v''])]\<rparr>)"
proof -
  let ?one = "[(''X-T'', '' v'', CRLF)]"
  let ?three = "[(''x-t'', '' v'', CRLF), (''X-T'', ''  w '', [LF]), (''Expires'', ''0'', CRLF)]"
  let ?h = "[(''Host'', [''a'']), (''X-T'', [''v'', ''w'']), (''Expires'', [''0''])]"
  have one: "\<forall>f \<in> set ?one. trailer_field f" by (simp add: trailer_field_def)
  have three: "\<forall>f \<in> set ?three. trailer_field f" by (simp add: trailer_field_def)
  have ck: "CanonicalHeaderKey unmapped ''x-t'' = ''X-T''" "CanonicalHeaderKey unmapped ''X-T'' = ''X-T''"
    "CanonicalHeaderKey unmapped ''Expires'' = ''Expires''" by code_simp+
  have ts: "TrimSpace '' v'' = ''v''" "TrimSpace ''  w '' = ''w''" "TrimSpace ''0'' = ''0''" by code_simp+
  have h1: "Add_all unmapped [] ?one = [(''X-T'', [''v''])]"
    by (simp add: Add_all_def Add_def header_at_def ck ts)
  have h3: "Add_all unmapped [(''Host'', [''a''])] ?three = ?h"
    by (simp add: Add_all_def Add_def header_at_def ck ts)
  have w3: "with_trailers unmapped [(''Host'', [''a''])] ?three ''X-T'' = Some [''v'', ''w'']"
    by (simp add: with_trailers_def trailer_values_def header_at_def ck ts)
  have v3: "Values unmapped [(''Host'', [''a''])] ''x-t'' @ trailer_values unmapped ?three (CanonicalHeaderKey unmapped ''x-t'')
      = [''v'', ''w'']"
    by (simp add: Values_def trailer_values_def header_at_def ck ts)
  note t1 = chunkedReader_trailers [OF _ one, where To = unmapped and lenp = 512
      and rest = "''X-T: v'' @ CRLF @ CRLF"
      and c = "\<lparr>cr_ctx = None, cr_r = \<lparr>pending = ''0'' @ CRLF @ ''X-T: v'' @ CRLF @ CRLF, grants = []\<rparr>,
       cr_state = stateChunkHeader, cr_remain = 0, cr_limit = 0, cr_readTotal = 9, cr_header = []\<rparr>"]
  note t2 = chunkedReader_trailers [OF _ three, where To = unmapped and lenp = 512 and rest = "''GET''"
      and c = "\<lparr>cr_ctx = None,
         cr_r = \<lparr>pending = ''x-t: v'' @ CRLF @ ''X-T:  w '' @ [LF] @ ''Expires:0'' @ CRLF @ CRLF @ ''GET'',
                 grants = []\<rparr>,
         cr_state = stateTrailer, cr_remain = 0, cr_limit = 0, cr_readTotal = 9,
         cr_header = [(''Host'', [''a''])]\<rparr>"]
  let ?bad = "[([CHR 0xFF, CHR ''A''], ''x'', CRLF)]"
  have bad: "\<forall>f \<in> set ?bad. trailer_field f" by (simp add: trailer_field_def)
  have cb: "CanonicalHeaderKey unmapped [CHR 0xFF, CHR ''A''] = [CHR 0xEF, CHR 0xBF, CHR 0xBD, CHR ''a'']"
    "CanonicalHeaderKey unmapped [CHR 0xEF, CHR 0xBF, CHR 0xBD, CHR ''a''] = [CHR 0xEF, CHR 0xBF, CHR 0xBD, CHR ''a'']"
    "TrimSpace ''x'' = ''x''" by code_simp+
  have hb: "Add_all unmapped [] ?bad = [([CHR 0xEF, CHR 0xBF, CHR 0xBD, CHR ''a''], [''x''])]"
    by (simp add: Add_all_def Add_def header_at_def cb)
  note tb = chunkedReader_trailers [OF _ bad, where To = unmapped and lenp = 512 and rest = "[]"
      and c = "\<lparr>cr_ctx = None, cr_r = \<lparr>pending = [CHR 0xFF, CHR ''A''] @ '':x'' @ CRLF @ CRLF, grants = []\<rparr>,
         cr_state = stateTrailer, cr_remain = 0, cr_limit = 0, cr_readTotal = 9, cr_header = []\<rparr>"]
  from tb have pb: "chunkedReader_Read unmapped 512
        \<lparr>cr_ctx = None, cr_r = \<lparr>pending = [CHR 0xFF, CHR ''A''] @ '':x'' @ CRLF @ CRLF, grants = []\<rparr>,
         cr_state = stateTrailer, cr_remain = 0, cr_limit = 0, cr_readTotal = 9, cr_header = []\<rparr>
     = (([], Some EOF),
        \<lparr>cr_ctx = None, cr_r = \<lparr>pending = [], grants = []\<rparr>,
         cr_state = stateDone, cr_remain = 0, cr_limit = 0, cr_readTotal = 9,
         cr_header = [([CHR 0xEF, CHR 0xBF, CHR 0xBD, CHR ''a''], [''x''])]\<rparr>)"
    by (simp add: hb trailer_lines_def)
  note t3 = chunkedReader_trailers [OF _ one, where To = unmapped and lenp = 512 and rest = "CRLF"
      and b = "''no colon here'' @ [CR]"
      and c = "\<lparr>cr_ctx = None, cr_r = \<lparr>pending = ''X-T: v'' @ CRLF @ ''no colon here'' @ CRLF @ CRLF, grants = []\<rparr>,
         cr_state = stateTrailer, cr_remain = 0, cr_limit = 0, cr_readTotal = 9, cr_header = []\<rparr>"]
  note t4 = chunkedReader_trailers [OF _ one, where To = unmapped and lenp = 512 and b = "''X-U: cut''"
      and c = "\<lparr>cr_ctx = None, cr_r = \<lparr>pending = ''X-T: v'' @ CRLF @ ''X-U: cut'', grants = []\<rparr>,
         cr_state = stateTrailer, cr_remain = 0, cr_limit = 0, cr_readTotal = 9, cr_header = []\<rparr>"]
  note t5 = chunkedReader_trailers [OF _ one, where To = unmapped and lenp = 512
      and c = "\<lparr>cr_ctx = None, cr_r = \<lparr>pending = ''GET'', grants = []\<rparr>,
         cr_state = stateDone, cr_remain = 0, cr_limit = 0, cr_readTotal = 9,
         cr_header = [(''X-T'', [''v''])]\<rparr>"]
  from t1 have p1: "chunkedReader_Read unmapped 512
      \<lparr>cr_ctx = None, cr_r = \<lparr>pending = ''0'' @ CRLF @ ''X-T: v'' @ CRLF @ CRLF, grants = []\<rparr>,
       cr_state = stateChunkHeader, cr_remain = 0, cr_limit = 0, cr_readTotal = 9, cr_header = []\<rparr>
     = (([], None),
        \<lparr>cr_ctx = None, cr_r = \<lparr>pending = ''X-T: v'' @ CRLF @ CRLF, grants = []\<rparr>,
         cr_state = stateTrailer, cr_remain = 0, cr_limit = 0, cr_readTotal = 9, cr_header = []\<rparr>)"
    by simp
  from t2 have p2: "chunkedReader_Read unmapped 512
        \<lparr>cr_ctx = None,
         cr_r = \<lparr>pending = ''x-t: v'' @ CRLF @ ''X-T:  w '' @ [LF] @ ''Expires:0'' @ CRLF @ CRLF @ ''GET'',
                 grants = []\<rparr>,
         cr_state = stateTrailer, cr_remain = 0, cr_limit = 0, cr_readTotal = 9,
         cr_header = [(''Host'', [''a''])]\<rparr>
     = (([], Some EOF),
        \<lparr>cr_ctx = None, cr_r = \<lparr>pending = ''GET'', grants = []\<rparr>,
         cr_state = stateDone, cr_remain = 0, cr_limit = 0, cr_readTotal = 9, cr_header = ?h\<rparr>)"
    by (simp add: h3 trailer_lines_def)
  from t2 have "map_of (Add_all unmapped [(''Host'', [''a''])] ?three) ''X-T''
      = with_trailers unmapped [(''Host'', [''a''])] ?three ''X-T''" by simp
  then have p3: "map_of ?h ''X-T'' = Some [''v'', ''w'']" by (simp only: h3 w3)
  from t2 have "Get unmapped (Add_all unmapped [(''Host'', [''a''])] ?three) ''x-t''
      = (case Values unmapped [(''Host'', [''a''])] ''x-t''
                @ trailer_values unmapped ?three (CanonicalHeaderKey unmapped ''x-t'') of
           [] \<Rightarrow> [] | v # _ \<Rightarrow> v)" by simp
  then have p4: "Get unmapped ?h ''x-t'' = ''v''" by (simp only: h3 v3 list.case)
  from t3 have p5: "chunkedReader_Read unmapped 512
        \<lparr>cr_ctx = None, cr_r = \<lparr>pending = ''X-T: v'' @ CRLF @ ''no colon here'' @ CRLF @ CRLF, grants = []\<rparr>,
         cr_state = stateTrailer, cr_remain = 0, cr_limit = 0, cr_readTotal = 9, cr_header = []\<rparr>
     = (([], Some ErrUnexpectedTrailer),
        \<lparr>cr_ctx = None, cr_r = \<lparr>pending = CRLF, grants = []\<rparr>,
         cr_state = stateTrailer, cr_remain = 0, cr_limit = 0, cr_readTotal = 9,
         cr_header = [(''X-T'', [''v''])]\<rparr>)"
    by (simp add: h1 trailer_lines_def)
  from t4 have p6: "chunkedReader_Read unmapped 512
        \<lparr>cr_ctx = None, cr_r = \<lparr>pending = ''X-T: v'' @ CRLF @ ''X-U: cut'', grants = []\<rparr>,
         cr_state = stateTrailer, cr_remain = 0, cr_limit = 0, cr_readTotal = 9, cr_header = []\<rparr>
     = (([], Some ErrUnexpectedTrailer),
        \<lparr>cr_ctx = None, cr_r = \<lparr>pending = [], grants = []\<rparr>,
         cr_state = stateTrailer, cr_remain = 0, cr_limit = 0, cr_readTotal = 9,
         cr_header = [(''X-T'', [''v''])]\<rparr>)"
    by (simp add: h1 trailer_lines_def)
  from t5 have p7: "chunkedReader_Read unmapped 512
        \<lparr>cr_ctx = None, cr_r = \<lparr>pending = ''GET'', grants = []\<rparr>,
         cr_state = stateDone, cr_remain = 0, cr_limit = 0, cr_readTotal = 9,
         cr_header = [(''X-T'', [''v''])]\<rparr>
     = (([], Some EOF),
        \<lparr>cr_ctx = None, cr_r = \<lparr>pending = ''GET'', grants = []\<rparr>,
         cr_state = stateDone, cr_remain = 0, cr_limit = 0, cr_readTotal = 9,
         cr_header = [(''X-T'', [''v''])]\<rparr>)"
    by simp
  from p1 p2 p3 p4 pb p5 p6 p7 show ?thesis by blast
qed

text \<open>
  The claim as it was stated fails for an empty line that is ended by LF alone: the
  field line before it, also ended by LF alone, is added, but the empty line is answered
  with ErrUnexpectedTrailer and the reader does not reach its terminal state; the next
  Read fails again instead of reporting the end of the stream.
\<close>

theorem chunkedReader_empty_line_LF_counterexample:
  "chunkedReader_Read unmapped 512
      \<lparr>cr_ctx = None, cr_r = \<lparr>pending = ''X-T: v'' @ [LF] @ [LF], grants = []\<rparr>,
       cr_state = stateTrailer, cr_remain = 0, cr_limit = 0, cr_readTotal = 9, cr_header = []\<rparr>
     = (([], Some ErrUnexpectedTrailer),
        \<lparr>cr_ctx = None, cr_r = \<lparr>pending = [], grants = []\<rparr>,
         cr_state = stateTrailer, cr_remain = 0, cr_limit = 0, cr_readTotal = 9,
         cr_header = [(''X-T'', [''v''])]\<rparr>)
   \<and> chunkedReader_Read unmapped 512
        \<lparr>cr_ctx = None, cr_r = \<lparr>pending = [], grants = []\<rparr>,
         cr_state = stateTrailer, cr_remain = 0, cr_limit = 0, cr_readTotal = 9,
         cr_header = [(''X-T'', [''v''])]\<rparr>
     = (([], Some ErrUnexpectedTrailer),
        \<lparr>cr_ctx = None, cr_r = \<lparr>pending = [], grants = []\<rparr>,
         cr_state = stateTrailer, cr_remain = 0, cr_limit = 0, cr_readTotal = 9,
         cr_header = [(''X-T'', [''v''])]\<rparr>)
   \<and> chunkedReader_Read unmapped 512
        \<lparr>cr_ctx = None, cr_r = \<lparr>pending = ''X-T: v'' @ CRLF @ CRLF, grants = []\<rparr>,
         cr_state = stateTrailer, cr_remain = 0, cr_limit = 0, cr_readTotal = 9, cr_header = []\<rparr>
     = (([], Some EOF),
        \<lparr>cr_ctx = None, cr_r = \<lparr>pending = [], grants = []\<rparr>,
         cr_state = stateDone, cr_remain = 0, cr_limit = 0, cr_readTotal = 9,
         cr_header = [(''X-T'', [''v''])]\<rparr>)"
proof -
  let ?one = "[(''X-T'', '' v'', [LF])]"
  let ?crlf = "[(''X-T'', '' v'', CRLF)]"
  have one: "\<forall>f \<in> set ?one. trailer_field f" by (simp add: trailer_field_def)
  have crlf: "\<forall>f \<in> set ?crlf. trailer_field f" by (simp add: trailer_field_def)
  have ck: "CanonicalHeaderKey unmapped ''X-T'' = ''X-T''" by code_simp
  have ts: "TrimSpace '' v'' = ''v''" by code_simp
  have h1: "Add_all unmapped [] ?one = [(''X-T'', [''v''])]"
    by (simp add: Add_all_def Add_def header_at_def ck ts)
  have h2: "Add_all unmapped [] ?crlf = [(''X-T'', [''v''])]"
    by (simp add: Add_all_def Add_def header_at_def ck ts)
  have "readTrailers unmapped \<lparr>pending = ''X-T: v'' @ [LF] @ [LF], grants = []\<rparr> []
      = readTrailers unmapped (\<lparr>pending = ''X-T: v'' @ [LF] @ [LF], grants = []\<rparr>\<lparr>pending := [] @ [LF] @ []\<rparr>)
          (Add_all unmapped [] ?one)"
    by (rule readTrailers_fields [OF one]) (simp add: trailer_lines_def)
  also have "\<dots> = (Some ErrUnexpectedTrailer, \<lparr>pending = [], grants = []\<rparr>, [(''X-T'', [''v''])])"
    using readTrailers_malformed [of "[]" "\<lparr>pending = [LF], grants = []\<rparr>" "[]" unmapped "[(''X-T'', [''v''])]"]
    by (simp add: h1)
  finally have r1: "readTrailers unmapped \<lparr>pending = ''X-T: v'' @ [LF] @ [LF], grants = []\<rparr> []
      = (Some ErrUnexpectedTrailer, \<lparr>pending = [], grants = []\<rparr>, [(''X-T'', [''v''])])" .
  have r2: "readTrailers unmapped \<lparr>pending = [], grants = []\<rparr> [(''X-T'', [''v''])]
      = (Some ErrUnexpectedTrailer, \<lparr>pending = [], grants = []\<rparr>, [(''X-T'', [''v''])])"
    using readTrailers_eof [of "\<lparr>pending = [], grants = []\<rparr>" unmapped "[(''X-T'', [''v''])]"] by simp
  have "readTrailers unmapped \<lparr>pending = ''X-T: v'' @ CRLF @ CRLF, grants = []\<rparr> []
      = readTrailers unmapped (\<lparr>pending = ''X-T: v'' @ CRLF @ CRLF, grants = []\<rparr>\<lparr>pending := CRLF @ []\<rparr>)
          (Add_all unmapped [] ?crlf)"
    by (rule readTrailers_fields [OF crlf]) (simp add: trailer_lines_def)
  also have "\<dots> = (None, \<lparr>pending = [], grants = []\<rparr>, [(''X-T'', [''v''])])"
    using readTrailers_blank [of "\<lparr>pending = CRLF, grants = []\<rparr>" "[]" unmapped "[(''X-T'', [''v''])]"]
    by (simp add: h2)
  finally have r3: "readTrailers unmapped \<lparr>pending = ''X-T: v'' @ CRLF @ CRLF, grants = []\<rparr> []
      = (None, \<lparr>pending = [], grants = []\<rparr>, [(''X-T'', [''v''])])" .
  from r1 r2 r3 show ?thesis by (simp add: chunkedReader_Read_def)
qed

section \<open>Chunk frames: writing them and reading them back\<close>

lemma nextChunkSize_size_line:
  assumes "0 \<le> n" and "n < 2 ^ 63" and "pending s = FormatInt n 16 @ CRLF @ rest"
  shows "nextChunkSize s = (Inr n, s\<lparr>pending := rest\<rparr>)"
proof -
  let ?hex = "FormatInt n 16"
  from assms(1) have fd: "?hex = format_digits 16 n" by (simp add: FormatInt_def)
  from format_digits_chars [of 16 n] assms(1) fd have
    ne: "?hex \<noteq> []" and chars: "\<forall>c \<in> set ?hex. (of_char c :: nat) \<in> {48..57} \<union> {97..122}"
    by auto
  from chars have "LF \<notin> set (?hex @ [CR])" by auto
  with assms(3) have rs: "bufio_ReadString LF s = (((?hex @ [CR]) @ [LF], None), s\<lparr>pending := rest\<rparr>)"
    by (intro bufio_ReadString_line) auto
  have ts: "TrimSpace ((?hex @ [CR]) @ [LF]) = ?hex"
    using TrimSpace_size_line [OF ne chars] by simp
  from chars have "CHR '';'' \<notin> set ?hex" by auto
  then have ix: "IndexByte ?hex (CHR '';'') = - 1" by (rule IndexByte_none)
  have px: "ParseInt ?hex 16 = Inr n" using assms by (intro ParseInt_FormatInt) auto
  from assms(1) show ?thesis
    by (simp add: nextChunkSize_def rs ts ne ix px Let_def del: append_assoc append.simps)
qed

subsection \<open>The chunked writer\<close>

lemma wr_Flush_Write: "wr (Flush (Writer_Write p b)) = wr (Flush b) @ p"
  by (simp add: Writer_Write_def Flush_def Let_def)

lemma chunkedWriter_Write_wire:
  assumes "cw_ctx cw = None"
  shows "fst (chunkedWriter_Write p cw) = (length p, None)
       \<and> cw_ctx (snd (chunkedWriter_Write p cw)) = None
       \<and> wr (Flush (cw_w (snd (chunkedWriter_Write p cw))))
           = wr (Flush (cw_w cw)) @ (if p = [] then [] else chunk_frame p)"
  using assms
  by (simp add: chunkedWriter_Write_def Writer_WriteString_def wr_Flush_Write chunk_frame_def Let_def)

lemma Write_each_wire:
  assumes "cw_ctx cw = None"
  shows "fst (Write_each bufs cw) = None
       \<and> cw_ctx (snd (Write_each bufs cw)) = None
       \<and> wr (Flush (cw_w (snd (Write_each bufs cw))))
           = wr (Flush (cw_w cw)) @ concat (map chunk_frame (filter (\<lambda>p. p \<noteq> []) bufs))"
  using assms
proof (induction bufs arbitrary: cw)
  case Nil
  then show ?case by simp
next
  case (Cons p bufs)
  obtain n e cw' where w: "chunkedWriter_Write p cw = ((n, e), cw')" by (metis surj_pair)
  with chunkedWriter_Write_wire [OF Cons.prems, of p] have
    e: "e = None" and ctx: "cw_ctx cw' = None"
    and wire: "wr (Flush (cw_w cw')) = wr (Flush (cw_w cw)) @ (if p = [] then [] else chunk_frame p)"
    by auto
  from Cons.IH [OF ctx] w e wire show ?case by simp
qed

lemma chunked_wire_frames:
  "chunked_wire None bufs = (None, chunk_frames (filter (\<lambda>p. p \<noteq> []) bufs))"
proof -
  let ?cw0 = "newChunkedWriter None (NewWriter [])"
  obtain e cw where we: "Write_each bufs ?cw0 = (e, cw)" by (metis surj_pair)
  have "cw_ctx ?cw0 = None" by (simp add: newChunkedWriter_def)
  from Write_each_wire [OF this, of bufs] we have
    e: "e = None" and ctx: "cw_ctx cw = None"
    and wire: "wr (Flush (cw_w cw)) = concat (map chunk_frame (filter (\<lambda>p. p \<noteq> []) bufs))"
    by (auto simp: newChunkedWriter_def NewWriter_def Flush_def)
  from we e ctx wire show ?thesis
    by (simp add: chunked_wire_def chunkedWriter_Close_def Writer_WriteString_def wr_Flush_Write
        chunk_frames_def)
qed

subsection \<open>Reading the frames back\<close>

lemma ReadAll_more:
  assumes "rd p r = ((bs, None), r')" and "ReadAll rd ps r' = Some ((out, e), r'')"
  shows "ReadAll rd (p # ps) r = Some ((bs @ out, e), r'')"
  using assms by simp

lemma ReadAll_end:
  assumes "rd p r = ((bs, Some EOF), r')"
  shows "ReadAll rd (p # ps) r = Some ((bs, None), r')"
  using assms by simp

lemma Read_size_line:
  assumes "cr_ctx c = None" and "cr_state c = stateChunkHeader"
    and "d \<noteq> []" and "int (length d) < 2 ^ 63"
    and "pending (cr_r c) = chunk_frame d @ rest"
  shows "chunkedReader_Read To p c =
           (([], None), c\<lparr>cr_r := (cr_r c)\<lparr>pending := d @ CRLF @ rest\<rparr>,
                          cr_remain := int (length d), cr_state := stateChunkData\<rparr>)"
proof -
  from assms(5) have "pending (cr_r c) = FormatInt (int (length d)) 16 @ CRLF @ (d @ CRLF @ rest)"
    by (simp add: chunk_frame_def)
  from nextChunkSize_size_line [OF _ assms(4) this]
  have "nextChunkSize (cr_r c) = (Inr (int (length d)), (cr_r c)\<lparr>pending := d @ CRLF @ rest\<rparr>)"
    by simp
  with assms(1,2,3) show ?thesis by (simp add: chunkedReader_Read_def)
qed

lemma Read_last_size_line:
  assumes "cr_ctx c = None" and "cr_state c = stateChunkHeader"
    and "pending (cr_r c) = ''0'' @ CRLF @ rest"
  shows "chunkedReader_Read To p c =
           (([], None), c\<lparr>cr_r := (cr_r c)\<lparr>pending := rest\<rparr>, cr_state := stateTrailer\<rparr>)"
  using assms nextChunkSize_zero [of "cr_r c" rest] by (simp add: chunkedReader_Read_def)

lemma chunkedReader_Read_data_unfold:
  assumes "cr_ctx c = None" and "cr_state c = stateChunkData" and "0 < cr_remain c"
    and "bufio_Read (if int p > cr_remain c then nat (cr_remain c) else p) (cr_r c) = ((bs, err), s')"
  shows "chunkedReader_Read To p c =
     (let c' = c\<lparr>cr_r := s', cr_remain := cr_remain c - int (length bs),
                    cr_readTotal := cr_readTotal c + int (length bs)\<rparr>
      in if cr_limit c' > 0 \<and> cr_readTotal c' > cr_limit c' then ((bs, Some ErrBodyTooLarge), c')
         else if err \<noteq> None then ((bs, err), c')
         else if cr_remain c' = 0 then ((bs, None), c'\<lparr>cr_state := stateChunkCRLF\<rparr>)
         else ((bs, None), c'))"
  using assms by (simp add: chunkedReader_Read_def Let_def)

lemma Read_data:
  assumes "cr_ctx c = None" and "cr_state c = stateChunkData"
    and "cur \<noteq> []" and "cr_remain c = int (length cur)"
    and "pending (cr_r c) = cur @ rest" and "0 < p"
    and "cr_limit c \<le> 0 \<or> cr_readTotal c + int (length cur) \<le> cr_limit c"
  shows "\<exists>k g. 0 < k \<and> k \<le> length cur \<and>
           chunkedReader_Read To p c =
             ((take k cur, None),
              c\<lparr>cr_r := \<lparr>pending = drop k cur @ rest, grants = g\<rparr>,
                cr_remain := int (length cur) - int k,
                cr_readTotal := cr_readTotal c + int k,
                cr_state := (if k = length cur then stateChunkCRLF else stateChunkData)\<rparr>)"
proof -
  define m where "m = (if int p > cr_remain c then nat (cr_remain c) else p)"
  from assms(3,4,6) have m: "0 < m" "m \<le> length cur" by (auto simp: m_def)
  show ?thesis
  proof (cases m "cr_r c" rule: src_Read_cases)
    case eof
    with assms(3,5) show ?thesis by simp
  next
    case (data k)
    from data(2,4) m have k: "0 < k" "k \<le> length cur" by auto
    then have tk: "take k (pending (cr_r c)) = take k cur"
      and dk: "drop k (pending (cr_r c)) = drop k cur @ rest"
      and lk: "length (take k cur) = k"
      using assms(5) by auto
    have rec: "(cr_r c)\<lparr>pending := drop k cur @ rest, grants := tl (grants (cr_r c))\<rparr>
        = \<lparr>pending = drop k cur @ rest, grants = tl (grants (cr_r c))\<rparr>" by simp
    have rd: "bufio_Read (if int p > cr_remain c then nat (cr_remain c) else p) (cr_r c)
        = ((take k cur, None), \<lparr>pending = drop k cur @ rest, grants = tl (grants (cr_r c))\<rparr>)"
      using data(5) tk dk rec m(1) by (simp add: bufio_Read_def m_def)
    from assms(3,4) have pos: "0 < cr_remain c" by simp
    note step = chunkedReader_Read_data_unfold [OF assms(1,2) pos rd]
    from k assms(7) have lim: "\<not> (cr_limit c > 0 \<and> cr_readTotal c + int k > cr_limit c)" by auto
    have "chunkedReader_Read To p c =
             ((take k cur, None),
              c\<lparr>cr_r := \<lparr>pending = drop k cur @ rest, grants = tl (grants (cr_r c))\<rparr>,
                cr_remain := int (length cur) - int k,
                cr_readTotal := cr_readTotal c + int k,
                cr_state := (if k = length cur then stateChunkCRLF else stateChunkData)\<rparr>)"
      using assms(2,4) lim k
      by (auto simp: step lk Let_def)
    with k show ?thesis by blast
  qed
qed

lemma Read_chunk_end:
  assumes "cr_ctx c = None" and "cr_state c = stateChunkCRLF"
    and "pending (cr_r c) = CRLF @ rest"
  shows "chunkedReader_Read To p c =
           (([], None), c\<lparr>cr_r := (cr_r c)\<lparr>pending := rest\<rparr>, cr_state := stateChunkHeader\<rparr>)"
proof -
  have "bufio_ReadString LF (cr_r c) = (([CR] @ [LF], None), (cr_r c)\<lparr>pending := rest\<rparr>)"
    using assms(3) by (intro bufio_ReadString_line) auto
  with assms(1,2) show ?thesis by (simp add: chunkedReader_Read_def)
qed

lemma Read_no_trailers:
  assumes "cr_ctx c = None" and "cr_state c = stateTrailer"
    and "pending (cr_r c) = CRLF @ rest"
  shows "chunkedReader_Read To p c =
           (([], Some EOF), c\<lparr>cr_r := (cr_r c)\<lparr>pending := rest\<rparr>, cr_state := stateDone\<rparr>)"
  using assms readTrailers_blank [OF assms(3), of To "cr_header c"]
  by (simp add: chunkedReader_Read_def)

lemma chunk_frames_Cons: "chunk_frames (d # ds) = chunk_frame d @ chunk_frames ds"
  by (simp add: chunk_frames_def)

lemma decode_run:
  assumes "cr_ctx c = None"
    and "\<forall>p \<in> set ps. 0 < p"
    and "\<forall>d \<in> set ds. d \<noteq> [] \<and> int (length d) < 2 ^ 63"
    and "cr_limit c \<le> 0 \<or> cr_readTotal c + int (length cur) + int (length (concat ds)) \<le> cr_limit c"
    and "(cr_state c = stateChunkHeader \<and> cur = [] \<and> pending (cr_r c) = chunk_frames ds @ rest
            \<and> sum_list (map (\<lambda>d. length d + 2) ds) + 2 \<le> length ps)
       \<or> (cr_state c = stateChunkData \<and> cur \<noteq> [] \<and> cr_remain c = int (length cur)
            \<and> pending (cr_r c) = cur @ CRLF @ chunk_frames ds @ rest
            \<and> length cur + 1 + sum_list (map (\<lambda>d. length d + 2) ds) + 2 \<le> length ps)
       \<or> (cr_state c = stateChunkCRLF \<and> cur = [] \<and> pending (cr_r c) = CRLF @ chunk_frames ds @ rest
            \<and> 1 + sum_list (map (\<lambda>d. length d + 2) ds) + 2 \<le> length ps)
       \<or> (cr_state c = stateTrailer \<and> cur = [] \<and> ds = [] \<and> pending (cr_r c) = CRLF @ rest
            \<and> 1 \<le> length ps)"
  shows "\<exists>c'. ReadAll (chunkedReader_Read To) ps c = Some ((cur @ concat ds, None), c')
            \<and> cr_state c' = stateDone \<and> cr_header c' = cr_header c \<and> pending (cr_r c') = rest"
  using assms
proof (induction ps arbitrary: c cur ds)
  case Nil
  then show ?case by auto
next
  case (Cons p ps)
  note ctx = Cons.prems(1) and chunks = Cons.prems(3) and lim = Cons.prems(4)
  from Cons.prems(2) have ppos: "0 < p" and pspos: "\<forall>p \<in> set ps. 0 < p" by auto
  from Cons.prems(5) consider
      (hdr) "cr_state c = stateChunkHeader" "cur = []" "pending (cr_r c) = chunk_frames ds @ rest"
        "sum_list (map (\<lambda>d. length d + 2) ds) + 2 \<le> length (p # ps)"
    | (dat) "cr_state c = stateChunkData" "cur \<noteq> []" "cr_remain c = int (length cur)"
        "pending (cr_r c) = cur @ CRLF @ chunk_frames ds @ rest"
        "length cur + 1 + sum_list (map (\<lambda>d. length d + 2) ds) + 2 \<le> length (p # ps)"
    | (crlf) "cr_state c = stateChunkCRLF" "cur = []" "pending (cr_r c) = CRLF @ chunk_frames ds @ rest"
        "1 + sum_list (map (\<lambda>d. length d + 2) ds) + 2 \<le> length (p # ps)"
    | (trl) "cr_state c = stateTrailer" "cur = []" "ds = []" "pending (cr_r c) = CRLF @ rest"
    by blast
  then show ?case
  proof cases
    case trl
    from ReadAll_end [of "chunkedReader_Read To", OF Read_no_trailers [OF ctx trl(1,4)]] trl(2,3)
    show ?thesis by simp
  next
    case crlf
    let ?c1 = "c\<lparr>cr_r := (cr_r c)\<lparr>pending := chunk_frames ds @ rest\<rparr>, cr_state := stateChunkHeader\<rparr>"
    have step: "chunkedReader_Read To p c = (([], None), ?c1)"
      by (rule Read_chunk_end [OF ctx crlf(1,3)])
    have "\<exists>c'. ReadAll (chunkedReader_Read To) ps ?c1 = Some (([] @ concat ds, None), c')
            \<and> cr_state c' = stateDone \<and> cr_header c' = cr_header ?c1 \<and> pending (cr_r c') = rest"
      using ctx pspos chunks lim crlf by (intro Cons.IH) auto
    then obtain c' where "ReadAll (chunkedReader_Read To) ps ?c1 = Some ((concat ds, None), c')"
      and fin: "cr_state c' = stateDone" "cr_header c' = cr_header c" "pending (cr_r c') = rest"
      by auto
    from ReadAll_more [of "chunkedReader_Read To", OF step this(1)] fin crlf(2) show ?thesis by simp
  next
    case hdr
    show ?thesis
    proof (cases ds)
      case Nil
      let ?c1 = "c\<lparr>cr_r := (cr_r c)\<lparr>pending := CRLF @ rest\<rparr>, cr_state := stateTrailer\<rparr>"
      from hdr(3) Nil have "pending (cr_r c) = ''0'' @ CRLF @ (CRLF @ rest)"
        by (simp add: chunk_frames_def)
      from Read_last_size_line [OF ctx hdr(1) this]
      have step: "chunkedReader_Read To p c = (([], None), ?c1)" .
      have "\<exists>c'. ReadAll (chunkedReader_Read To) ps ?c1 = Some (([] @ concat [], None), c')
            \<and> cr_state c' = stateDone \<and> cr_header c' = cr_header ?c1 \<and> pending (cr_r c') = rest"
        using ctx pspos lim hdr Nil by (intro Cons.IH) auto
      then obtain c' where "ReadAll (chunkedReader_Read To) ps ?c1 = Some (([], None), c')"
        and fin: "cr_state c' = stateDone" "cr_header c' = cr_header c" "pending (cr_r c') = rest"
        by auto
      from ReadAll_more [of "chunkedReader_Read To", OF step this(1)] fin hdr(2) Nil show ?thesis by simp
    next
      case (Cons d ds')
      let ?c1 = "c\<lparr>cr_r := (cr_r c)\<lparr>pending := d @ CRLF @ chunk_frames ds' @ rest\<rparr>,
                    cr_remain := int (length d), cr_state := stateChunkData\<rparr>"
      from chunks Cons have d: "d \<noteq> []" "int (length d) < 2 ^ 63" by auto
      from hdr(3) Cons have "pending (cr_r c) = chunk_frame d @ (chunk_frames ds' @ rest)"
        by (simp add: chunk_frames_Cons)
      from Read_size_line [OF ctx hdr(1) d this]
      have step: "chunkedReader_Read To p c = (([], None), ?c1)" by simp
      have "\<exists>c'. ReadAll (chunkedReader_Read To) ps ?c1 = Some ((d @ concat ds', None), c')
            \<and> cr_state c' = stateDone \<and> cr_header c' = cr_header ?c1 \<and> pending (cr_r c') = rest"
        using ctx pspos chunks lim hdr Cons d by (intro Cons.IH) auto
      then obtain c' where "ReadAll (chunkedReader_Read To) ps ?c1 = Some ((d @ concat ds', None), c')"
        and fin: "cr_state c' = stateDone" "cr_header c' = cr_header c" "pending (cr_r c') = rest"
        by auto
      from ReadAll_more [of "chunkedReader_Read To", OF step this(1)] fin hdr(2) Cons show ?thesis by simp
    qed
  next
    case dat
    from lim have lim': "cr_limit c \<le> 0 \<or> cr_readTotal c + int (length cur) \<le> cr_limit c" by auto
    from Read_data [OF ctx dat(1,2,3,4) ppos lim'] obtain k g where
      k: "0 < k" "k \<le> length cur"
      and step: "chunkedReader_Read To p c =
             ((take k cur, None),
              c\<lparr>cr_r := \<lparr>pending = drop k cur @ CRLF @ chunk_frames ds @ rest, grants = g\<rparr>,
                cr_remain := int (length cur) - int k,
                cr_readTotal := cr_readTotal c + int k,
                cr_state := (if k = length cur then stateChunkCRLF else stateChunkData)\<rparr>)"
      by blast
    let ?c1 = "c\<lparr>cr_r := \<lparr>pending = drop k cur @ CRLF @ chunk_frames ds @ rest, grants = g\<rparr>,
                cr_remain := int (length cur) - int k,
                cr_readTotal := cr_readTotal c + int k,
                cr_state := (if k = length cur then stateChunkCRLF else stateChunkData)\<rparr>"
    have lim1: "cr_limit ?c1 \<le> 0
        \<or> cr_readTotal ?c1 + int (length (drop k cur)) + int (length (concat ds)) \<le> cr_limit ?c1"
      using lim k by auto
    have "\<exists>c'. ReadAll (chunkedReader_Read To) ps ?c1 = Some ((drop k cur @ concat ds, None), c')
            \<and> cr_state c' = stateDone \<and> cr_header c' = cr_header ?c1 \<and> pending (cr_r c') = rest"
    proof (rule Cons.IH [OF _ pspos chunks lim1])
      show "cr_ctx ?c1 = None" using ctx by simp
      show "(cr_state ?c1 = stateChunkHeader \<and> drop k cur = [] \<and> pending (cr_r ?c1) = chunk_frames ds @ rest
            \<and> sum_list (map (\<lambda>d. length d + 2) ds) + 2 \<le> length ps)
       \<or> (cr_state ?c1 = stateChunkData \<and> drop k cur \<noteq> [] \<and> cr_remain ?c1 = int (length (drop k cur))
            \<and> pending (cr_r ?c1) = drop k cur @ CRLF @ chunk_frames ds @ rest
            \<and> length (drop k cur) + 1 + sum_list (map (\<lambda>d. length d + 2) ds) + 2 \<le> length ps)
       \<or> (cr_state ?c1 = stateChunkCRLF \<and> drop k cur = [] \<and> pending (cr_r ?c1) = CRLF @ chunk_frames ds @ rest
            \<and> 1 + sum_list (map (\<lambda>d. length d + 2) ds) + 2 \<le> length ps)
       \<or> (cr_state ?c1 = stateTrailer \<and> drop k cur = [] \<and> ds = [] \<and> pending (cr_r ?c1) = CRLF @ rest
            \<and> 1 \<le> length ps)"
      proof (cases "k = length cur")
        case True
        from dat(2) have "Suc 0 \<le> length cur" by (cases cur) auto
        with dat(5) have "1 + sum_list (map (\<lambda>d. length d + 2) ds) + 2 \<le> length ps" by simp
        with True show ?thesis by simp
      next
        case False
        with k dat(5) show ?thesis by auto
      qed
    qed
    then obtain c' where "ReadAll (chunkedReader_Read To) ps ?c1 = Some ((drop k cur @ concat ds, None), c')"
      and fin: "cr_state c' = stateDone" "cr_header c' = cr_header c" "pending (cr_r c') = rest"
      by auto
    from ReadAll_more [of "chunkedReader_Read To", OF step this(1)] fin show ?thesis by simp
  qed
qed

lemma concat_filter_nonempty: "concat (filter (\<lambda>p. p \<noteq> []) bufs) = concat bufs"
  by (induction bufs) auto

lemma sum_list_filter_le:
  "sum_list (map f (filter P xs)) \<le> sum_list (map f xs)" for f :: "'a \<Rightarrow> nat"
  by (induction xs) auto

text \<open>
  Claim C3. Whatever buffers are handed to the chunked writer, one Write call each, empty
  buffers among them or not (each shorter than \<open>2^63\<close> bytes, as every Go slice is),
  the bytes on the wire after Close, read back through a chunked reader whose cap, if it
  has one, admits the body, give exactly the concatenation of the buffers and a normal
  end of stream; the reader is done, has consumed the whole wire and has added nothing
  to the header store. This holds however the stream splits its reads and for all
  positive sizes of the consumer's buffers; one Read call per byte, two per buffer and
  two more always suffice. Writing \<open>Wiki\<close> and \<open>pedia\<close> puts
  \<open>4 CRLF Wiki CRLF 5 CRLF pedia CRLF 0 CRLF CRLF\<close> on the wire.
\<close>

theorem chunked_round_trip:
  assumes "\<forall>b \<in> set bufs. int (length b) < 2 ^ 63"
    and "\<forall>p \<in> set ps. 0 < p"
    and "sum_list (map (\<lambda>b. length b + 2) bufs) + 2 \<le> length ps"
    and "limit \<le> 0 \<or> int (length (concat bufs)) \<le> limit"
  shows "(\<exists>wire c'. chunked_wire None bufs = (None, wire)
            \<and> ReadAll (chunkedReader_Read To) ps (newChunkedReader None \<lparr>pending = wire, grants = g\<rparr> limit hdr)
                = Some ((concat bufs, None), c')
            \<and> cr_state c' = stateDone \<and> cr_header c' = hdr \<and> pending (cr_r c') = [])
       \<and> chunked_wire None [''Wiki'', ''pedia'']
            = (None, ''4'' @ CRLF @ ''Wiki'' @ CRLF @ ''5'' @ CRLF @ ''pedia'' @ CRLF @ ''0'' @ CRLF @ CRLF)"
proof
  let ?ds = "filter (\<lambda>p. p \<noteq> []) bufs"
  let ?c = "newChunkedReader None \<lparr>pending = chunk_frames ?ds, grants = g\<rparr> limit hdr"
  have fuel: "sum_list (map (\<lambda>d. length d + 2) ?ds) + 2 \<le> length ps"
    using assms(3) sum_list_filter_le [of "\<lambda>d. length d + 2" "\<lambda>p. p \<noteq> []" bufs] by linarith
  have "\<exists>c'. ReadAll (chunkedReader_Read To) ps ?c = Some (([] @ concat ?ds, None), c')
            \<and> cr_state c' = stateDone \<and> cr_header c' = cr_header ?c \<and> pending (cr_r c') = []"
  proof (rule decode_run [OF _ assms(2)])
    show "cr_ctx ?c = None" by (simp add: newChunkedReader_def)
    show "\<forall>d \<in> set ?ds. d \<noteq> [] \<and> int (length d) < 2 ^ 63" using assms(1) by auto
    show "cr_limit ?c \<le> 0 \<or> cr_readTotal ?c + int (length ([] :: string)) + int (length (concat ?ds)) \<le> cr_limit ?c"
      using assms(4) by (simp add: newChunkedReader_def concat_filter_nonempty del: length_concat)
    show "(cr_state ?c = stateChunkHeader \<and> ([] :: string) = [] \<and> pending (cr_r ?c) = chunk_frames ?ds @ []
            \<and> sum_list (map (\<lambda>d. length d + 2) ?ds) + 2 \<le> length ps)
       \<or> (cr_state ?c = stateChunkData \<and> ([] :: string) \<noteq> [] \<and> cr_remain ?c = int (length ([] :: string))
            \<and> pending (cr_r ?c) = [] @ CRLF @ chunk_frames ?ds @ []
            \<and> length ([] :: string) + 1 + sum_list (map (\<lambda>d. length d + 2) ?ds) + 2 \<le> length ps)
       \<or> (cr_state ?c = stateChunkCRLF \<and> ([] :: string) = [] \<and> pending (cr_r ?c) = CRLF @ chunk_frames ?ds @ []
            \<and> 1 + sum_list (map (\<lambda>d. length d + 2) ?ds) + 2 \<le> length ps)
       \<or> (cr_state ?c = stateTrailer \<and> ([] :: string) = [] \<and> ?ds = [] \<and> pending (cr_r ?c) = CRLF @ []
            \<and> 1 \<le> length ps)"
      using fuel by (simp add: newChunkedReader_def)
  qed
  then obtain c' where "ReadAll (chunkedReader_Read To) ps ?c = Some ((concat bufs, None), c')"
    and "cr_state c' = stateDone" "cr_header c' = hdr" "pending (cr_r c') = []"
    by (auto simp: concat_filter_nonempty newChunkedReader_def)
  with chunked_wire_frames [of bufs]
  show "\<exists>wire c'. chunked_wire None bufs = (None, wire)
            \<and> ReadAll (chunkedReader_Read To) ps (newChunkedReader None \<lparr>pending = wire, grants = g\<rparr> limit hdr)
                = Some ((concat bufs, None), c')
            \<and> cr_state c' = stateDone \<and> cr_header c' = hdr \<and> pending (cr_r c') = []"
    by blast
next
  show "chunked_wire None [''Wiki'', ''pedia'']
            = (None, ''4'' @ CRLF @ ''Wiki'' @ CRLF @ ''5'' @ CRLF @ ''pedia'' @ CRLF @ ''0'' @ CRLF @ CRLF)"
    by code_simp
qed

theorem chunked_round_trip_witness:
  "chunked_wire None [''Wiki'', [], ''pedia'']
     = (None, ''4'' @ CRLF @ ''Wiki'' @ CRLF @ ''5'' @ CRLF @ ''pedia'' @ CRLF @ ''0'' @ CRLF @ CRLF)
   \<and> ReadAll (chunkedReader_Read unmapped) (replicate 17 3)
        (newChunkedReader None
           \<lparr>pending = ''4'' @ CRLF @ ''Wiki'' @ CRLF @ ''5'' @ CRLF @ ''pedia'' @ CRLF @ ''0'' @ CRLF @ CRLF,
            grants = [2, 0]\<rparr> 0 [])
     = Some ((''Wikipedia'', None),
             \<lparr>cr_ctx = None, cr_r = \<lparr>pending = [], grants = []\<rparr>, cr_state = stateDone,
              cr_remain = 0, cr_limit = 0, cr_readTotal = 9, cr_header = []\<rparr>)"
proof -
  let ?bufs = "[''Wiki'', [], ''pedia'']"
  have a: "\<forall>b \<in> set ?bufs. int (length b) < 2 ^ 63" by simp
  have b: "\<forall>p \<in> set (replicate 17 (3::nat)). 0 < p" by simp
  have c: "sum_list (map (\<lambda>b. length b + 2) ?bufs) + 2 \<le> length (replicate 17 (3::nat))" by simp
  have d: "(0::int) \<le> 0 \<or> int (length (concat ?bufs)) \<le> 0" by simp
  have w: "chunked_wire None ?bufs
     = (None, ''4'' @ CRLF @ ''Wiki'' @ CRLF @ ''5'' @ CRLF @ ''pedia'' @ CRLF @ ''0'' @ CRLF @ CRLF)"
    by code_simp
  have r: "ReadAll (chunkedReader_Read unmapped) (replicate 17 3)
        (newChunkedReader None
           \<lparr>pending = ''4'' @ CRLF @ ''Wiki'' @ CRLF @ ''5'' @ CRLF @ ''pedia'' @ CRLF @ ''0'' @ CRLF @ CRLF,
            grants = [2, 0]\<rparr> 0 [])
     = Some ((''Wikipedia'', None),
             \<lparr>cr_ctx = None, cr_r = \<lparr>pending = [], grants = []\<rparr>, cr_state = stateDone,
              cr_remain = 0, cr_limit = 0, cr_readTotal = 9, cr_header = []\<rparr>)"
    by code_simp
  from chunked_round_trip [OF a b c d, of unmapped "[2, 0]" "[]"] w r show ?thesis by simp
qed

section \<open>The response writer\<close>

lemma write_values_wire:
  "fst (write_values None ck vals bw) = None
   \<and> wr (Flush (snd (write_values None ck vals bw)))
       = wr (Flush bw) @ concat (map (\<lambda>v. ck @ '': '' @ v @ CRLF) vals)"
  by (induction vals arbitrary: bw) (simp_all add: Writer_WriteString_def wr_Flush_Write)

lemma write_headers_wire:
  "fst (write_headers To None h bw) = None
   \<and> wr (Flush (snd (write_headers To None h bw))) = wr (Flush bw) @ header_lines To h"
proof (induction h arbitrary: bw)
  case Nil
  then show ?case by (simp add: header_lines_def)
next
  case (Cons kv h)
  obtain k vals where kv: "kv = (k, vals)" by (cases kv)
  obtain e bw' where wv: "write_values None (CanonicalHeaderKey To k) vals bw = (e, bw')"
    by (metis surj_pair)
  with write_values_wire [of "CanonicalHeaderKey To k" vals bw] have
    "e = None" and "wr (Flush bw') = wr (Flush bw) @ concat (map (\<lambda>v. CanonicalHeaderKey To k @ '': '' @ v @ CRLF) vals)"
    by auto
  with Cons.IH [of bw'] kv wv show ?case by (simp add: header_lines_def)
qed

lemma copyBuffer_segments:
  assumes accepts: "\<And>bs d. I d \<Longrightarrow> bs \<noteq> [] \<Longrightarrow> fst (wfn bs d) = (length bs, None) \<and> I (snd (wfn bs d))"
    and "I dst"
  shows "\<exists>segs src'. [] \<notin> set segs
           \<and> concat segs = (case src of FromSource s \<Rightarrow> pending s
                             | FromLimited l \<Rightarrow> take (nat (lr_N l)) (pending (lr_R l)))
           \<and> copyBuffer wfn dst src written
               = ((written + int (length (concat segs)), None), fold (\<lambda>bs d. snd (wfn bs d)) segs dst, src')"
  using assms(2)
proof (induction "length (pending (copySrc_source src))" arbitrary: src dst written rule: less_induct)
  case less
  let ?data = "case src of FromSource s \<Rightarrow> pending s
                | FromLimited l \<Rightarrow> take (nat (lr_N l)) (pending (lr_R l))"
  obtain bs er src' where rd: "copySrc_Read 32768 src = ((bs, er), src')" by (metis surj_pair)
  consider (stop) "bs = []" "er = Some EOF" "?data = []"
    | (more) "bs \<noteq> []" "er = None" "length (pending (copySrc_source src')) < length (pending (copySrc_source src))"
        "?data = bs @ (case src' of FromSource s \<Rightarrow> pending s
                        | FromLimited l \<Rightarrow> take (nat (lr_N l)) (pending (lr_R l)))"
  proof (cases src)
    case (FromSource s)
    show ?thesis
    proof (cases "32768 :: nat" s rule: src_Read_cases)
      case eof
      with FromSource rd stop show ?thesis by auto
    next
      case (data k)
      with FromSource rd have "bs = take k (pending s)" "er = None"
        "src' = FromSource (s\<lparr>pending := drop k (pending s), grants := tl (grants s)\<rparr>)" "0 < k"
        by auto
      with data FromSource more show ?thesis by auto
    qed
  next
    case (FromLimited l)
    show ?thesis
    proof (cases "lr_N l \<le> 0")
      case True
      with FromLimited rd stop show ?thesis by (auto simp: LimitedReader_Read_def)
    next
      case False
      define m where "m = (if int (32768::nat) > lr_N l then nat (lr_N l) else 32768)"
      from False have m: "0 < m" "int m \<le> lr_N l" by (auto simp: m_def)
      obtain bs0 e0 r0 where sr: "src_Read m (lr_R l) = ((bs0, e0), r0)" by (metis surj_pair)
      have "LimitedReader_Read 32768 l = ((bs0, e0), l\<lparr>lr_R := r0, lr_N := lr_N l - int (length bs0)\<rparr>)"
        using False sr [unfolded m_def] by (simp add: LimitedReader_Read_def Let_def)
      with FromLimited rd have rd': "bs = bs0" "er = e0"
        "src' = FromLimited (l\<lparr>lr_R := r0, lr_N := lr_N l - int (length bs0)\<rparr>)"
        by auto
      show ?thesis
      proof (cases m "lr_R l" rule: src_Read_cases)
        case eof
        with FromLimited rd' sr stop show ?thesis by auto
      next
        case (data k)
        from data m have k: "0 < k" "int k \<le> lr_N l" "k \<le> length (pending (lr_R l))" by auto
        from data rd' sr k have r: "bs = take k (pending (lr_R l))" "er = None"
          "src' = FromLimited (l\<lparr>lr_R := (lr_R l)\<lparr>pending := drop k (pending (lr_R l)), grants := tl (grants (lr_R l))\<rparr>,
                                 lr_N := lr_N l - int k\<rparr>)"
          by auto
        from k have "nat (lr_N l) = k + nat (lr_N l - int k)" by simp
        then have "take (nat (lr_N l)) (pending (lr_R l))
            = take k (pending (lr_R l)) @ take (nat (lr_N l - int k)) (drop k (pending (lr_R l)))"
          by (simp add: take_add)
        with r k data(1) FromLimited more show ?thesis by auto
      qed
    qed
  qed
  then show ?case
  proof cases
    case stop
    have "copyBuffer wfn dst src written = ((written, None), dst, src')"
      using rd stop by (subst copyBuffer.simps) simp
    with stop(3) show ?thesis by (intro exI [of _ "[]"]) auto
  next
    case more
    obtain nw ew dst' where w: "wfn bs dst = ((nw, ew), dst')" by (metis surj_pair)
    with accepts [OF less.prems more(1)] have acc: "nw = length bs" "ew = None" "I dst'" by auto
    from less.hyps [OF more(3) acc(3), of "written + int (length bs)"] obtain segs src'' where
      segs: "[] \<notin> set segs"
        "concat segs = (case src' of FromSource s \<Rightarrow> pending s
                        | FromLimited l \<Rightarrow> take (nat (lr_N l)) (pending (lr_R l)))"
        "copyBuffer wfn dst' src' (written + int (length bs))
           = ((written + int (length bs) + int (length (concat segs)), None),
              fold (\<lambda>bs d. snd (wfn bs d)) segs dst', src'')"
      by blast
    have "copyBuffer wfn dst src written = copyBuffer wfn dst' src' (written + int (length bs))"
      using rd more(1,2) w acc by (subst copyBuffer.simps) (simp add: Let_def)
    with segs more w show ?thesis
      by (intro exI [of _ "bs # segs"] exI [of _ src'']) (simp del: length_concat)
  qed
qed

lemma fold_Writer_wire:
  "wr (Flush (fold (\<lambda>bs d. snd (Writer_io_Write bs d)) segs dst)) = wr (Flush dst) @ concat segs"
  by (induction segs arbitrary: dst) (simp_all add: Writer_io_Write_def wr_Flush_Write)

lemma fold_chunkedWriter_wire:
  assumes "cw_ctx cw = None" and "[] \<notin> set segs"
  shows "cw_ctx (fold (\<lambda>bs d. snd (chunkedWriter_Write bs d)) segs cw) = None
       \<and> wr (Flush (cw_w (fold (\<lambda>bs d. snd (chunkedWriter_Write bs d)) segs cw)))
           = wr (Flush (cw_w cw)) @ concat (map chunk_frame segs)"
  using assms
proof (induction segs arbitrary: cw)
  case Nil
  then show ?case by simp
next
  case (Cons bs segs)
  from chunkedWriter_Write_wire [OF Cons.prems(1), of bs] Cons.prems(2) have
    ctx: "cw_ctx (snd (chunkedWriter_Write bs cw)) = None"
    and wire: "wr (Flush (cw_w (snd (chunkedWriter_Write bs cw)))) = wr (Flush (cw_w cw)) @ chunk_frame bs"
    by auto
  from Cons.IH [OF ctx] Cons.prems(2) wire show ?case by simp
qed

lemma io_CopyN_Writer:
  assumes "0 \<le> n" and "n \<le> int (length (pending body))"
  shows "\<exists>bw' body'. io_CopyN Writer_io_Write bw body n = ((n, None), bw', body')
           \<and> wr (Flush bw') = wr (Flush bw) @ take (nat n) (pending body)"
proof -
  have "\<And>bs d. True \<Longrightarrow> bs \<noteq> [] \<Longrightarrow>
      fst (Writer_io_Write bs d) = (length bs, None) \<and> True"
    by (simp add: Writer_io_Write_def)
  from copyBuffer_segments [of "\<lambda>_. True" Writer_io_Write bw "FromLimited \<lparr>lr_R = body, lr_N = n\<rparr>" 0, OF this]
  obtain segs src' where segs: "concat segs = take (nat n) (pending body)"
    and cp: "copyBuffer Writer_io_Write bw (FromLimited \<lparr>lr_R = body, lr_N = n\<rparr>) 0
        = ((0 + int (length (concat segs)), None),
           fold (\<lambda>bs d. snd (Writer_io_Write bs d)) segs bw, src')"
    by auto
  from assms segs have "int (length (concat segs)) = n" by (simp del: length_concat)
  with cp have "io_CopyN Writer_io_Write bw body n
      = ((n, None), fold (\<lambda>bs d. snd (Writer_io_Write bs d)) segs bw, copySrc_source src')"
    by (simp add: io_CopyN_def del: length_concat)
  with fold_Writer_wire [of segs bw] segs show ?thesis by auto
qed

lemma io_Copy_Writer:
  "\<exists>written bw' body'. io_Copy Writer_io_Write bw body = ((written, None), bw', body')
           \<and> wr (Flush bw') = wr (Flush bw) @ pending body"
proof -
  have "\<And>bs d. True \<Longrightarrow> bs \<noteq> [] \<Longrightarrow>
      fst (Writer_io_Write bs d) = (length bs, None) \<and> True"
    by (simp add: Writer_io_Write_def)
  from copyBuffer_segments [of "\<lambda>_. True" Writer_io_Write bw "FromSource body" 0, OF this]
  obtain segs src' where segs: "concat segs = pending body"
    and cp: "copyBuffer Writer_io_Write bw (FromSource body) 0
        = ((0 + int (length (concat segs)), None),
           fold (\<lambda>bs d. snd (Writer_io_Write bs d)) segs bw, src')"
    by auto
  then have "io_Copy Writer_io_Write bw body
      = ((int (length (concat segs)), None), fold (\<lambda>bs d. snd (Writer_io_Write bs d)) segs bw,
         copySrc_source src')"
    by (simp add: io_Copy_def del: length_concat)
  with fold_Writer_wire [of segs bw] segs show ?thesis by auto
qed

lemma io_Copy_chunkedWriter:
  assumes "cw_ctx cw = None"
  shows "\<exists>segs written cw' body'. [] \<notin> set segs \<and> concat segs = pending body
           \<and> io_Copy chunkedWriter_Write cw body = ((written, None), cw', body')
           \<and> cw_ctx cw' = None
           \<and> wr (Flush (cw_w cw')) = wr (Flush (cw_w cw)) @ concat (map chunk_frame segs)"
proof -
  have "\<And>bs d. cw_ctx d = None \<Longrightarrow> bs \<noteq> [] \<Longrightarrow>
      fst (chunkedWriter_Write bs d) = (length bs, None) \<and> cw_ctx (snd (chunkedWriter_Write bs d)) = None"
    using chunkedWriter_Write_wire by blast
  from copyBuffer_segments [of "\<lambda>d. cw_ctx d = None" chunkedWriter_Write cw "FromSource body" 0, OF this assms]
  obtain segs src' where segs: "[] \<notin> set segs" "concat segs = pending body"
    and cp: "copyBuffer chunkedWriter_Write cw (FromSource body) 0
        = ((0 + int (length (concat segs)), None),
           fold (\<lambda>bs d. snd (chunkedWriter_Write bs d)) segs cw, src')"
    by auto
  then have "io_Copy chunkedWriter_Write cw body
      = ((int (length (concat segs)), None), fold (\<lambda>bs d. snd (chunkedWriter_Write bs d)) segs cw,
         copySrc_source src')"
    by (simp add: io_Copy_def del: length_concat)
  with fold_chunkedWriter_wire [OF assms segs(1)] segs show ?thesis by blast
qed

lemma WriteResponse_head:
  "\<exists>bw. wr bw = w @ response_head To resp \<and> wbuf bw = []
      \<and> WriteResponse To None w resp =
          (case Body resp of None \<Rightarrow> (None, wr bw)
           | Some body \<Rightarrow> WriteResponse_body To None (Header resp) bw body)"
proof -
  define line where "line = (if Proto resp = [] then ''HTTP/1.1'' else Proto resp) @ '' ''
      @ Itoa (StatusCode resp) @ '' ''
      @ (if Status resp = [] then Itoa (StatusCode resp) else Status resp) @ CRLF"
  define bw1 where "bw1 = Writer_WriteString line (NewWriter w)"
  obtain e bw2 where wh: "write_headers To None (Header resp) bw1 = (e, bw2)" by (metis surj_pair)
  with write_headers_wire [of To "Header resp" bw1] have e: "e = None"
    and w2: "wr (Flush bw2) = wr (Flush bw1) @ header_lines To (Header resp)" by auto
  have w1: "wr (Flush bw1) = w @ line"
    by (simp add: bw1_def Writer_WriteString_def wr_Flush_Write) (simp add: NewWriter_def Flush_def)
  define bw where "bw = Flush (Writer_WriteString CRLF bw2)"
  have "wr bw = wr (Flush bw2) @ CRLF"
    by (simp add: bw_def Writer_WriteString_def wr_Flush_Write)
  with w1 w2 have a: "wr bw = w @ response_head To resp"
    by (simp add: response_head_def line_def)
  have b: "wbuf bw = []" by (simp add: bw_def Flush_def)
  have "WriteResponse To None w resp =
      (case Body resp of None \<Rightarrow> (None, wr bw)
       | Some body \<Rightarrow> WriteResponse_body To None (Header resp) bw body)"
    using wh e unfolding WriteResponse_def bw_def bw1_def line_def
    by (simp add: Let_def)
  with a b show ?thesis by blast
qed

lemma wr_Flush_empty: "wbuf bw = [] \<Longrightarrow> wr (Flush bw) = wr bw"
  by (simp add: Flush_def)

lemma WriteResponse_fixed_length:
  assumes "Body resp = Some body"
    and "Get To (Header resp) ''Content-Length'' \<noteq> []"
    and "ParseInt (TrimSpace (Get To (Header resp) ''Content-Length'')) 10 = Inr n"
    and "0 \<le> n" and "n \<le> int (length (pending body))"
  shows "WriteResponse To None w resp = (None, w @ response_head To resp @ take (nat n) (pending body))"
proof -
  from WriteResponse_head [of w To resp] assms(1) obtain bw where
    head: "wr bw = w @ response_head To resp" and empty: "wbuf bw = []"
    and wr: "WriteResponse To None w resp = WriteResponse_body To None (Header resp) bw body"
    by auto
  from io_CopyN_Writer [OF assms(4,5), of bw] obtain bw' body' where
    "io_CopyN Writer_io_Write bw body n = ((n, None), bw', body')"
    "wr (Flush bw') = wr (Flush bw) @ take (nat n) (pending body)" by blast
  with assms wr_Flush_empty [OF empty] head show ?thesis
    by (simp add: wr WriteResponse_body_def Let_def)
qed

lemma WriteResponse_chunked:
  assumes "Body resp = Some body"
    and "Get To (Header resp) ''Content-Length'' = []"
    and "EqualFold (Get To (Header resp) ''Transfer-Encoding'') ''chunked''"
  shows "\<exists>segs. [] \<notin> set segs \<and> concat segs = pending body
           \<and> WriteResponse To None w resp = (None, w @ response_head To resp @ chunk_frames segs)"
proof -
  from WriteResponse_head [of w To resp] assms(1) obtain bw where
    head: "wr bw = w @ response_head To resp" and empty: "wbuf bw = []"
    and wr: "WriteResponse To None w resp = WriteResponse_body To None (Header resp) bw body"
    by auto
  have "cw_ctx (newChunkedWriter None bw) = None" by (simp add: newChunkedWriter_def)
  from io_Copy_chunkedWriter [OF this, of body] obtain segs written cw' body' where
    segs: "[] \<notin> set segs" "concat segs = pending body"
    and cp: "io_Copy chunkedWriter_Write (newChunkedWriter None bw) body = ((written, None), cw', body')"
    and ctx: "cw_ctx cw' = None"
    and wire: "wr (Flush (cw_w cw')) = wr (Flush (cw_w (newChunkedWriter None bw))) @ concat (map chunk_frame segs)"
    by blast
  from ctx have cl: "chunkedWriter_Close cw' = (None, cw'\<lparr>cw_w := Writer_WriteString (''0'' @ CRLF @ CRLF) (cw_w cw')\<rparr>)"
    by (simp add: chunkedWriter_Close_def)
  have "wr (Flush (Writer_WriteString (''0'' @ CRLF @ CRLF) (cw_w cw')))
      = w @ response_head To resp @ chunk_frames segs"
    using wire wr_Flush_empty [OF empty] head
    by (simp add: Writer_WriteString_def wr_Flush_Write chunk_frames_def newChunkedWriter_def)
  with assms cp cl have "WriteResponse To None w resp = (None, w @ response_head To resp @ chunk_frames segs)"
    by (simp add: wr WriteResponse_body_def Let_def)
  with segs show ?thesis by blast
qed

lemma WriteResponse_until_close:
  assumes "Body resp = Some body"
    and "Get To (Header resp) ''Content-Length'' = []"
    and "\<not> EqualFold (Get To (Header resp) ''Transfer-Encoding'') ''chunked''"
  shows "WriteResponse To None w resp = (None, w @ response_head To resp @ pending body)"
proof -
  from WriteResponse_head [of w To resp] assms(1) obtain bw where
    head: "wr bw = w @ response_head To resp" and empty: "wbuf bw = []"
    and wr: "WriteResponse To None w resp = WriteResponse_body To None (Header resp) bw body"
    by auto
  from io_Copy_Writer [of bw body] obtain written bw' body' where
    "io_Copy Writer_io_Write bw body = ((written, None), bw', body')"
    "wr (Flush bw') = wr (Flush bw) @ pending body" by blast
  with assms wr_Flush_empty [OF empty] head show ?thesis
    by (simp add: wr WriteResponse_body_def Let_def)
qed

lemma WriteResponse_bad_length:
  assumes "Body resp = Some body"
    and "Get To (Header resp) ''Content-Length'' \<noteq> []"
    and "\<forall>m. ParseInt (TrimSpace (Get To (Header resp) ''Content-Length'')) 10 = Inr m \<longrightarrow> m < 0"
  shows "WriteResponse To None w resp = (Some ErrLengthMismatch, w @ response_head To resp)"
proof -
  from WriteResponse_head [of w To resp] assms(1) obtain bw where
    head: "wr bw = w @ response_head To resp"
    and wr: "WriteResponse To None w resp = WriteResponse_body To None (Header resp) bw body"
    by auto
  from assms(2,3) head show ?thesis
    by (simp add: wr WriteResponse_body_def Let_def split: sum.splits)
qed

text \<open>
  Claim C2, as amended. WriteResponse looks at Content-Length first. When its first
  value is not empty and parses to a count that the body can supply, exactly that many
  bytes of the body follow the head, whatever Transfer-Encoding says; when it does not
  parse or is negative, the call fails with ErrLengthMismatch after the head. Only when
  Content-Length is absent or empty and Transfer-Encoding folds to chunked is the body
  written as chunk frames, one per read of the body, closed by the terminal frame.
  With neither, the body follows the head as it is. (Fixed-length over chunked over
  close-delimited; the decoder has chunked first.)
\<close>

theorem WriteResponse_framing_precedence:
  assumes "Body resp = Some body"
  shows "(Get To (Header resp) ''Content-Length'' \<noteq> []
            \<and> ParseInt (TrimSpace (Get To (Header resp) ''Content-Length'')) 10 = Inr n
            \<and> 0 \<le> n \<and> n \<le> int (length (pending body))
          \<longrightarrow> WriteResponse To None w resp = (None, w @ response_head To resp @ take (nat n) (pending body)))
       \<and> (Get To (Header resp) ''Content-Length'' = []
            \<and> EqualFold (Get To (Header resp) ''Transfer-Encoding'') ''chunked''
          \<longrightarrow> (\<exists>segs. [] \<notin> set segs \<and> concat segs = pending body
                 \<and> WriteResponse To None w resp = (None, w @ response_head To resp @ chunk_frames segs)))
       \<and> (Get To (Header resp) ''Content-Length'' = []
            \<and> \<not> EqualFold (Get To (Header resp) ''Transfer-Encoding'') ''chunked''
          \<longrightarrow> WriteResponse To None w resp = (None, w @ response_head To resp @ pending body))
       \<and> (Get To (Header resp) ''Content-Length'' \<noteq> []
            \<and> (\<forall>m. ParseInt (TrimSpace (Get To (Header resp) ''Content-Length'')) 10 = Inr m \<longrightarrow> m < 0)
          \<longrightarrow> WriteResponse To None w resp = (Some ErrLengthMismatch, w @ response_head To resp))"
  using WriteResponse_fixed_length [OF assms, of To n w] WriteResponse_chunked [OF assms, of To w]
    WriteResponse_until_close [OF assms, of To w] WriteResponse_bad_length [OF assms, of To w]
  by blast

theorem WriteResponse_framing_precedence_witness:
  "WriteResponse unmapped None []
     \<lparr>Proto = ''HTTP/1.1'', StatusCode = 200, Status = ''OK'',
      Header = [(''Transfer-Encoding'', [''chunked'']), (''Content-Length'', [''11''])],
      Body = Some \<lparr>pending = ''hello world'', grants = []\<rparr>\<rparr>
     = (None, ''HTTP/1.1 200 OK'' @ CRLF @ ''Transfer-Encoding: chunked'' @ CRLF
              @ ''Content-Length: 11'' @ CRLF @ CRLF @ ''hello world'')
   \<and> WriteResponse unmapped None []
     \<lparr>Proto = ''HTTP/1.1'', StatusCode = 200, Status = ''OK'',
      Header = [(''Content-Type'', [''text/plain''])],
      Body = Some \<lparr>pending = ''abc'', grants = []\<rparr>\<rparr>
     = (None, ''HTTP/1.1 200 OK'' @ CRLF @ ''Content-Type: text/plain'' @ CRLF @ CRLF @ ''abc'')
   \<and> (\<exists>segs. [] \<notin> set segs \<and> concat segs = ''Wikipedia''
        \<and> WriteResponse unmapped None []
             \<lparr>Proto = ''HTTP/1.1'', StatusCode = 200, Status = ''OK'',
              Header = [(''Transfer-Encoding'', [''Chunked''])],
              Body = Some \<lparr>pending = ''Wikipedia'', grants = [4]\<rparr>\<rparr>
           = (None, ''HTTP/1.1 200 OK'' @ CRLF @ ''Transfer-Encoding: Chunked'' @ CRLF @ CRLF
                    @ chunk_frames segs))
   \<and> WriteResponse unmapped None []
     \<lparr>Proto = ''HTTP/1.1'', StatusCode = 200, Status = ''OK'',
      Header = [(''Transfer-Encoding'', [''chunked'']), (''Content-Length'', [''1x''])],
      Body = Some \<lparr>pending = ''abc'', grants = []\<rparr>\<rparr>
     = (Some ErrLengthMismatch, ''HTTP/1.1 200 OK'' @ CRLF @ ''Transfer-Encoding: chunked'' @ CRLF
              @ ''Content-Length: 1x'' @ CRLF @ CRLF)"
proof -
  let ?bad = "\<lparr>Proto = ''HTTP/1.1'', StatusCode = 200, Status = ''OK'',
      Header = [(''Transfer-Encoding'', [''chunked'']), (''Content-Length'', [''1x''])],
      Body = Some \<lparr>pending = ''abc'', grants = []\<rparr>\<rparr>"
  have b1: "Get unmapped (Header ?bad) ''Content-Length'' \<noteq> []" by code_simp
  have b2: "ParseInt (TrimSpace (Get unmapped (Header ?bad) ''Content-Length'')) 10 = Inl ErrSyntax" by code_simp
  have b3: "response_head unmapped ?bad = ''HTTP/1.1 200 OK'' @ CRLF @ ''Transfer-Encoding: chunked'' @ CRLF
      @ ''Content-Length: 1x'' @ CRLF @ CRLF"
    by code_simp
  have d: "WriteResponse unmapped None [] ?bad
     = (Some ErrLengthMismatch, ''HTTP/1.1 200 OK'' @ CRLF @ ''Transfer-Encoding: chunked'' @ CRLF
              @ ''Content-Length: 1x'' @ CRLF @ CRLF)"
    using WriteResponse_framing_precedence
      [of ?bad "\<lparr>pending = ''abc'', grants = []\<rparr>" unmapped 0 "[]"] b1 b2 b3
    by simp
  let ?chunked = "\<lparr>Proto = ''HTTP/1.1'', StatusCode = 200, Status = ''OK'',
      Header = [(''Transfer-Encoding'', [''Chunked''])],
      Body = Some \<lparr>pending = ''Wikipedia'', grants = [4]\<rparr>\<rparr>"
  have c1: "Get unmapped (Header ?chunked) ''Content-Length'' = []" by code_simp
  have c2: "EqualFold (Get unmapped (Header ?chunked) ''Transfer-Encoding'') ''chunked''" by code_simp
  have c3: "response_head unmapped ?chunked = ''HTTP/1.1 200 OK'' @ CRLF @ ''Transfer-Encoding: Chunked'' @ CRLF @ CRLF"
    by code_simp
  have b: "\<exists>segs. [] \<notin> set segs \<and> concat segs = ''Wikipedia''
        \<and> WriteResponse unmapped None [] ?chunked
           = (None, ''HTTP/1.1 200 OK'' @ CRLF @ ''Transfer-Encoding: Chunked'' @ CRLF @ CRLF
                    @ chunk_frames segs)"
    using WriteResponse_framing_precedence
      [of ?chunked "\<lparr>pending = ''Wikipedia'', grants = [4]\<rparr>" unmapped 0 "[]"] c1 c2 c3
    by simp
  let ?fixed = "\<lparr>Proto = ''HTTP/1.1'', StatusCode = 200, Status = ''OK'',
      Header = [(''Transfer-Encoding'', [''chunked'']), (''Content-Length'', [''11''])],
      Body = Some \<lparr>pending = ''hello world'', grants = []\<rparr>\<rparr>"
  let ?plain = "\<lparr>Proto = ''HTTP/1.1'', StatusCode = 200, Status = ''OK'',
      Header = [(''Content-Type'', [''text/plain''])],
      Body = Some \<lparr>pending = ''abc'', grants = []\<rparr>\<rparr>"
  have f1: "Get unmapped (Header ?fixed) ''Content-Length'' \<noteq> []" by code_simp
  have f2: "ParseInt (TrimSpace (Get unmapped (Header ?fixed) ''Content-Length'')) 10 = Inr 11" by code_simp
  have f3: "response_head unmapped ?fixed = ''HTTP/1.1 200 OK'' @ CRLF @ ''Transfer-Encoding: chunked'' @ CRLF
      @ ''Content-Length: 11'' @ CRLF @ CRLF"
    by code_simp
  have p1: "Get unmapped (Header ?plain) ''Content-Length'' = []" by code_simp
  have p2: "\<not> EqualFold (Get unmapped (Header ?plain) ''Transfer-Encoding'') ''chunked''" by code_simp
  have p3: "response_head unmapped ?plain = ''HTTP/1.1 200 OK'' @ CRLF @ ''Content-Type: text/plain'' @ CRLF @ CRLF"
    by code_simp
  have a: "WriteResponse unmapped None [] ?fixed
     = (None, ''HTTP/1.1 200 OK'' @ CRLF @ ''Transfer-Encoding: chunked'' @ CRLF
              @ ''Content-Length: 11'' @ CRLF @ CRLF @ ''hello world'')"
    using WriteResponse_framing_precedence
      [of ?fixed "\<lparr>pending = ''hello world'', grants = []\<rparr>" unmapped 11 "[]"] f1 f2 f3
    by simp
  have c: "WriteResponse unmapped None [] ?plain
     = (None, ''HTTP/1.1 200 OK'' @ CRLF @ ''Content-Type: text/plain'' @ CRLF @ CRLF @ ''abc'')"
    using WriteResponse_framing_precedence
      [of ?plain "\<lparr>pending = ''abc'', grants = []\<rparr>" unmapped 0 "[]"] p1 p2 p3
    by simp
  from a c b d show ?thesis by blast
qed

text \<open>
  The claim as it was stated fails: with Content-Length 5 and Transfer-Encoding chunked
  both present, the body follows the head as five plain bytes, not as chunk frames, while
  NewBodyReader on the same header picks the chunked reader.
\<close>

theorem WriteResponse_both_headers_counterexample:
  "Get unmapped [(''Content-Length'', [''5'']), (''Transfer-Encoding'', [''chunked''])] ''Content-Length'' = ''5''
   \<and> EqualFold (Get unmapped [(''Content-Length'', [''5'']), (''Transfer-Encoding'', [''chunked''])] ''Transfer-Encoding'')
        ''chunked''
   \<and> WriteResponse unmapped None []
        \<lparr>Proto = ''HTTP/1.1'', StatusCode = 200, Status = ''OK'',
         Header = [(''Content-Length'', [''5'']), (''Transfer-Encoding'', [''chunked''])],
         Body = Some \<lparr>pending = ''hello'', grants = []\<rparr>\<rparr>
     = (None, ''HTTP/1.1 200 OK'' @ CRLF @ ''Content-Length: 5'' @ CRLF
              @ ''Transfer-Encoding: chunked'' @ CRLF @ CRLF @ ''hello'')
   \<and> snd (WriteResponse unmapped None []
        \<lparr>Proto = ''HTTP/1.1'', StatusCode = 200, Status = ''OK'',
         Header = [(''Content-Length'', [''5'']), (''Transfer-Encoding'', [''chunked''])],
         Body = Some \<lparr>pending = ''hello'', grants = []\<rparr>\<rparr>)
     \<noteq> ''HTTP/1.1 200 OK'' @ CRLF @ ''Content-Length: 5'' @ CRLF
              @ ''Transfer-Encoding: chunked'' @ CRLF @ CRLF @ chunk_frames [''hello'']
   \<and> NewBodyReader unmapped None [(''Content-Length'', [''5'']), (''Transfer-Encoding'', [''chunked''])]
        \<lparr>pending = ''hello'', grants = []\<rparr> 0
     = Inr (Chunked (newChunkedReader None \<lparr>pending = ''hello'', grants = []\<rparr> 0
              [(''Content-Length'', [''5'']), (''Transfer-Encoding'', [''chunked''])]), - 1)"
proof -
  let ?h = "[(''Content-Length'', [''5'']), (''Transfer-Encoding'', [''chunked''])]"
  let ?body = "\<lparr>pending = ''hello'', grants = []\<rparr>"
  let ?resp = "\<lparr>Proto = ''HTTP/1.1'', StatusCode = 200, Status = ''OK'', Header = ?h, Body = Some ?body\<rparr>"
  have g1: "Get unmapped ?h ''Content-Length'' = ''5''" by code_simp
  have g2: "EqualFold (Get unmapped ?h ''Transfer-Encoding'') ''chunked''" by code_simp
  have g3: "ParseInt (TrimSpace (Get unmapped ?h ''Content-Length'')) 10 = Inr 5" by code_simp
  have g4: "response_head unmapped ?resp = ''HTTP/1.1 200 OK'' @ CRLF @ ''Content-Length: 5'' @ CRLF
      @ ''Transfer-Encoding: chunked'' @ CRLF @ CRLF" by code_simp
  have g5: "chunk_frames [''hello''] = ''5'' @ CRLF @ ''hello'' @ CRLF @ ''0'' @ CRLF @ CRLF" by code_simp
  have g6: "NewBodyReader unmapped None ?h ?body 0 = Inr (Chunked (newChunkedReader None ?body 0 ?h), - 1)"
    by code_simp
  have w: "WriteResponse unmapped None [] ?resp
     = (None, ''HTTP/1.1 200 OK'' @ CRLF @ ''Content-Length: 5'' @ CRLF
              @ ''Transfer-Encoding: chunked'' @ CRLF @ CRLF @ ''hello'')"
    using WriteResponse_fixed_length [of ?resp ?body unmapped 5 "[]"] g1 g3 g4 by simp
  from g1 g2 g5 g6 w show ?thesis by simp
qed

end
